theory Spec2Isabelle
  imports Main "HOL-Library.Word" "HOL-Library.Sublist"
begin

unbundle bit_operations_syntax

section \<open>Machine types\<close>

text \<open>
  The tracer (\<^verbatim>\<open>src/skeletonkey.cpp\<close>) and the decoder (\<^verbatim>\<open>src/reader.cpp\<close>)
  work on fixed-width integers. \<^verbatim>\<open>uint8_t\<close>, \<^verbatim>\<open>uint32_t\<close> and \<^verbatim>\<open>uint64_t\<close> are words;
  \<^verbatim>\<open>int32_t\<close> is a 32-bit word read through \<open>sint\<close>; a \<^verbatim>\<open>void*\<close> is the 64-bit word
  \<^verbatim>\<open>reinterpret_cast<uint64_t>\<close> gives. \<^verbatim>\<open>size_t\<close> positions and loop counters that cannot
  overflow are \<open>nat\<close>.
\<close>

type_synonym u8 = "8 word"
type_synonym u32 = "32 word"
type_synonym u64 = "64 word"
type_synonym i32 = "32 word"

text \<open>
  \<^verbatim>\<open>enum class EventType : uint8_t\<close>: a value of the type is one byte, and the casts
  \<^verbatim>\<open>static_cast<uint8_t>(type)\<close> of the writer and \<^verbatim>\<open>static_cast<EventType>(byte)\<close> of the
  reader keep that byte. The enumerators name the bytes 0 to 32 in declaration order.
\<close>

type_synonym EventType = u8

definition ThreadCreate :: EventType where "ThreadCreate = 0"
definition MutexInit :: EventType where "MutexInit = 1"
definition MutexDestroy :: EventType where "MutexDestroy = 2"
definition MutexLock :: EventType where "MutexLock = 3"
definition MutexLockDone :: EventType where "MutexLockDone = 4"
definition MutexTryLock :: EventType where "MutexTryLock = 5"
definition MutexTryLockDone :: EventType where "MutexTryLockDone = 6"
definition MutexTimedLock :: EventType where "MutexTimedLock = 7"
definition MutexTimedLockDone :: EventType where "MutexTimedLockDone = 8"
definition MutexUnlock :: EventType where "MutexUnlock = 9"
definition RWLockInit :: EventType where "RWLockInit = 10"
definition RWLockDestroy :: EventType where "RWLockDestroy = 11"
definition RWLockRead :: EventType where "RWLockRead = 12"
definition RWLockReadDone :: EventType where "RWLockReadDone = 13"
definition RWLockTryRead :: EventType where "RWLockTryRead = 14"
definition RWLockTryReadDone :: EventType where "RWLockTryReadDone = 15"
definition RWLockTimedRead :: EventType where "RWLockTimedRead = 16"
definition RWLockTimedReadDone :: EventType where "RWLockTimedReadDone = 17"
definition RWLockWrite :: EventType where "RWLockWrite = 18"
definition RWLockWriteDone :: EventType where "RWLockWriteDone = 19"
definition RWLockTryWrite :: EventType where "RWLockTryWrite = 20"
definition RWLockTryWriteDone :: EventType where "RWLockTryWriteDone = 21"
definition RWLockTimedWrite :: EventType where "RWLockTimedWrite = 22"
definition RWLockTimedWriteDone :: EventType where "RWLockTimedWriteDone = 23"
definition RWLockUnlock :: EventType where "RWLockUnlock = 24"
definition CondInit :: EventType where "CondInit = 25"
definition CondDestroy :: EventType where "CondDestroy = 26"
definition CondSignal :: EventType where "CondSignal = 27"
definition CondBroadcast :: EventType where "CondBroadcast = 28"
definition CondWait :: EventType where "CondWait = 29"
definition CondWaitDone :: EventType where "CondWaitDone = 30"
definition CondTimedWait :: EventType where "CondTimedWait = 31"
definition CondTimedWaitDone :: EventType where "CondTimedWaitDone = 32"

section \<open>The varint writer\<close>

text \<open>
  \<^verbatim>\<open>VarIntWriter::encodeVarInt\<close> is a do-while loop that pushes bytes onto the writer's
  \<^verbatim>\<open>buffer\<close>; the model passes the buffer through. The loop body runs once before the test,
  so zero still produces one byte.
\<close>

lemma drop_bit_7_less: "drop_bit 7 (v :: u64) \<noteq> 0 \<Longrightarrow> unat (drop_bit 7 v) < unat v"
proof -
  assume nz: "drop_bit 7 v \<noteq> 0"
  have eq: "unat (drop_bit 7 v) = unat v div 2 ^ 7"
    by (simp add: drop_bit_eq_div unat_div)
  from nz have "unat (drop_bit 7 v) \<noteq> 0"
    by (simp add: unat_eq_0)
  with eq have "0 < unat v div 2 ^ 7" by simp
  then have "unat v div 2 ^ 7 < unat v" by (simp add: div_less_dividend)
  with eq show ?thesis by simp
qed

function encodeVarInt :: "u64 \<Rightarrow> u8 list \<Rightarrow> u8 list" where
  "encodeVarInt v buffer =
     (if drop_bit 7 v \<noteq> 0
      then encodeVarInt (drop_bit 7 v) (buffer @ [ucast (v AND 0x7F) OR 0x80])
      else buffer @ [ucast (v AND 0x7F)])"
  by pat_completeness auto
termination
  by (relation "measure (\<lambda>(v, buffer). unat v)") (auto simp: drop_bit_7_less)

declare encodeVarInt.simps [simp del]

text \<open>The bytes \<^verbatim>\<open>encodeVarInt\<close> appends for one value.\<close>

definition varint :: "u64 \<Rightarrow> u8 list" where
  "varint v = encodeVarInt v []"

text \<open>\<^verbatim>\<open>VarIntWriter::clear\<close>, the two \<^verbatim>\<open>write\<close> overloads and \<^verbatim>\<open>writePtr\<close>.\<close>

definition clear :: "u8 list \<Rightarrow> u8 list" where
  "clear buffer = []"

definition write_u64 :: "u64 \<Rightarrow> u8 list \<Rightarrow> u8 list" where
  "write_u64 v buffer = encodeVarInt v buffer"

definition write_EventType :: "EventType \<Rightarrow> u8 list \<Rightarrow> u8 list" where
  "write_EventType ty buffer = buffer @ [ty]"

definition writePtr :: "u64 \<Rightarrow> u8 list \<Rightarrow> u8 list" where
  "writePtr p buffer = encodeVarInt p buffer"

text \<open>
  \<^verbatim>\<open>VarIntWriter::writeStack(stack, depth)\<close>: the depth as a varint, then
  \<^verbatim>\<open>stack[0]\<close> to \<^verbatim>\<open>stack[depth - 1]\<close>. The loop counter is a \<^verbatim>\<open>uint32_t\<close> below
  \<^verbatim>\<open>depth\<close>, so it cannot wrap.
\<close>

function writeStack_loop :: "u64 list \<Rightarrow> nat \<Rightarrow> nat \<Rightarrow> u8 list \<Rightarrow> u8 list" where
  "writeStack_loop stk depth i buffer =
     (if i < depth then writeStack_loop stk depth (i + 1) (encodeVarInt (stk ! i) buffer)
      else buffer)"
  by pat_completeness auto
termination
  by (relation "measure (\<lambda>(stk, depth, i, buffer). depth - i)") auto

declare writeStack_loop.simps [simp del]

definition writeStack :: "u64 list \<Rightarrow> u32 \<Rightarrow> u8 list \<Rightarrow> u8 list" where
  "writeStack stk depth buffer =
     writeStack_loop stk (unat depth) 0 (encodeVarInt (ucast depth) buffer)"

section \<open>Event records and their serialization\<close>

text \<open>
  What \<^verbatim>\<open>EventLogger::log\<close> writes for one call and what the reader's loop reads back:
  the seven scalars and the captured stack. (The packed \<^verbatim>\<open>struct Event\<close> of the source is
  declared but never used; the record below holds the values that travel.)
\<close>

record Event =
  timestamp :: u64
  tid :: u32
  type :: EventType
  ptr1 :: u64
  ptr2 :: u64
  result :: i32
  duration_ns :: u64
  stack :: "u64 list"

definition MAX_STACK_DEPTH :: nat where
  "MAX_STACK_DEPTH = 16"

text \<open>
  Lines 171 to 179 of \<^verbatim>\<open>EventLogger::log\<close>, on the writer's scratch buffer: the
  \<^verbatim>\<open>uint32_t\<close> tid widens to \<^verbatim>\<open>uint64_t\<close> with zeros, the \<^verbatim>\<open>int32_t\<close> result is
  \<^verbatim>\<open>static_cast<uint64_t>\<close> (sign extension), and the depth is the number of captured
  frames.
\<close>

definition serialize_into :: "Event \<Rightarrow> u8 list \<Rightarrow> u8 list" where
  "serialize_into e writer =
     (let b = clear writer;
          b = write_u64 (timestamp e) b;
          b = write_u64 (ucast (tid e)) b;
          b = write_EventType (type e) b;
          b = writePtr (ptr1 e) b;
          b = writePtr (ptr2 e) b;
          b = write_u64 (scast (result e)) b;
          b = write_u64 (duration_ns e) b;
          b = writeStack (stack e) (of_nat (length (stack e))) b
      in b)"

definition serialize :: "Event \<Rightarrow> u8 list" where
  "serialize e = serialize_into e []"

section \<open>The varint reader\<close>

text \<open>The members \<^verbatim>\<open>buffer_\<close> and \<^verbatim>\<open>pos_\<close> of \<^verbatim>\<open>VarIntReader\<close>.\<close>

record VarIntReader =
  reader_buffer :: "u8 list"
  reader_pos :: nat

text \<open>
  The loop of \<^verbatim>\<open>VarIntReader::readVarInt\<close>, with its locals \<^verbatim>\<open>result\<close> and \<^verbatim>\<open>shift\<close>.
  The shift is written with \<open>push_bit\<close>, which gives 0 once \<^verbatim>\<open>shift\<close> reaches 64; C++ leaves
  such a shift undefined. An encoding made by \<open>encodeVarInt\<close> has at most ten bytes and so
  never shifts by more than 63.
\<close>

function readVarInt_loop :: "u8 list \<Rightarrow> nat \<Rightarrow> u64 \<Rightarrow> nat \<Rightarrow> u64 \<times> nat" where
  "readVarInt_loop buf pos res shift =
     (if pos < length buf
      then (if (buf ! pos) AND 0x80 = 0
            then (res OR push_bit shift (ucast ((buf ! pos) AND 0x7F)), pos + 1)
            else readVarInt_loop buf (pos + 1)
                   (res OR push_bit shift (ucast ((buf ! pos) AND 0x7F))) (shift + 7))
      else (res, pos))"
  by pat_completeness auto
termination
  by (relation "measure (\<lambda>(buf, pos, res, shift). length buf - pos)") auto

declare readVarInt_loop.simps [simp del]

definition readVarInt :: "VarIntReader \<Rightarrow> u64 \<times> VarIntReader" where
  "readVarInt rd =
     (case readVarInt_loop (reader_buffer rd) (reader_pos rd) 0 0 of
        (res, pos) \<Rightarrow> (res, rd\<lparr>reader_pos := pos\<rparr>))"

text \<open>
  \<^verbatim>\<open>readEventType\<close> indexes the vector without a bounds check. Reading at or past the end
  is undefined in C++; the model reports it as an error value.
\<close>

datatype reader_error = OutOfBounds

definition readEventType :: "VarIntReader \<Rightarrow> reader_error + (EventType \<times> VarIntReader)" where
  "readEventType rd =
     (if reader_pos rd < length (reader_buffer rd)
      then Inr (reader_buffer rd ! reader_pos rd, rd\<lparr>reader_pos := reader_pos rd + 1\<rparr>)
      else Inl OutOfBounds)"

definition readPtr :: "VarIntReader \<Rightarrow> u64 \<times> VarIntReader" where
  "readPtr rd = readVarInt rd"

text \<open>
  \<^verbatim>\<open>readStack\<close>: the depth is the varint narrowed to \<^verbatim>\<open>uint32_t\<close>; the loop pushes one
  pointer per count.
\<close>

function readStack_loop :: "nat \<Rightarrow> nat \<Rightarrow> VarIntReader \<Rightarrow> u64 list \<Rightarrow> u64 list \<times> VarIntReader" where
  "readStack_loop i depth rd stk =
     (if i < depth
      then (case readPtr rd of (p, rd') \<Rightarrow> readStack_loop (i + 1) depth rd' (stk @ [p]))
      else (stk, rd))"
  by pat_completeness auto
termination
  by (relation "measure (\<lambda>(i, depth, rd, stk). depth - i)") auto

declare readStack_loop.simps [simp del]

definition readStack :: "VarIntReader \<Rightarrow> u64 list \<times> VarIntReader" where
  "readStack rd =
     (case readVarInt rd of
        (d, rd') \<Rightarrow> readStack_loop 0 (unat (ucast d :: u32)) rd' [])"

definition eof :: "VarIntReader \<Rightarrow> bool" where
  "eof rd \<longleftrightarrow> reader_pos rd \<ge> length (reader_buffer rd)"

section \<open>The decoder's main loop\<close>

text \<open>
  One iteration of the \<^verbatim>\<open>while (!reader.eof())\<close> loop of \<^verbatim>\<open>main\<close>, lines 212 to 220:
  \<^verbatim>\<open>tid\<close> and \<^verbatim>\<open>result\<close> are narrowed to 32 bits by their declarations.
\<close>

definition read_event :: "VarIntReader \<Rightarrow> reader_error + (Event \<times> VarIntReader)" where
  "read_event rd0 =
     (case readVarInt rd0 of (ts, rd1) \<Rightarrow>
      case readVarInt rd1 of (td, rd2) \<Rightarrow>
      case readEventType rd2 of
        Inl err \<Rightarrow> Inl err
      | Inr (ty, rd3) \<Rightarrow>
         (case readPtr rd3 of (p1, rd4) \<Rightarrow>
          case readPtr rd4 of (p2, rd5) \<Rightarrow>
          case readVarInt rd5 of (rs, rd6) \<Rightarrow>
          case readVarInt rd6 of (du, rd7) \<Rightarrow>
          case readStack rd7 of (stk, rd8) \<Rightarrow>
            Inr (\<lparr>timestamp = ts, tid = ucast td, type = ty, ptr1 = p1, ptr2 = p2,
                  result = ucast rs, duration_ns = du, stack = stk\<rparr>, rd8)))"

subsection \<open>Positions only move forward\<close>

lemma readVarInt_loop_pos:
  "pos \<le> snd (readVarInt_loop buf pos res shift) \<and>
   (pos < length buf \<longrightarrow> pos < snd (readVarInt_loop buf pos res shift)) \<and>
   snd (readVarInt_loop buf pos res shift) \<le> max pos (length buf)"
proof (induction buf pos res shift rule: readVarInt_loop.induct)
  case (1 buf pos res shift)
  show ?case
  proof (cases "pos < length buf")
    case False
    then show ?thesis by (subst (1 2 3) readVarInt_loop.simps) simp
  next
    case True
    show ?thesis
    proof (cases "(buf ! pos) AND 0x80 = 0")
      case stop: True
      with True show ?thesis by (subst (1 2 3) readVarInt_loop.simps) simp
    next
      case cont: False
      from "1.IH"[OF True cont] True cont show ?thesis
        by (subst (1 2 3) readVarInt_loop.simps) (simp add: max_def split: if_splits)
    qed
  qed
qed

lemma readVarInt_buffer: "reader_buffer (snd (readVarInt rd)) = reader_buffer rd"
  by (simp add: readVarInt_def split: prod.splits)

lemma readVarInt_pos_le: "reader_pos rd \<le> reader_pos (snd (readVarInt rd))"
  using readVarInt_loop_pos[of "reader_pos rd" "reader_buffer rd" 0 0]
  by (cases "readVarInt_loop (reader_buffer rd) (reader_pos rd) 0 0") (simp add: readVarInt_def)

lemma readVarInt_pos_less:
  "reader_pos rd < length (reader_buffer rd) \<Longrightarrow> reader_pos rd < reader_pos (snd (readVarInt rd))"
  using readVarInt_loop_pos[of "reader_pos rd" "reader_buffer rd" 0 0]
  by (cases "readVarInt_loop (reader_buffer rd) (reader_pos rd) 0 0") (simp add: readVarInt_def)

lemma readVarInt_pos_bound:
  "reader_pos (snd (readVarInt rd)) \<le> max (reader_pos rd) (length (reader_buffer rd))"
  using readVarInt_loop_pos[of "reader_pos rd" "reader_buffer rd" 0 0]
  by (cases "readVarInt_loop (reader_buffer rd) (reader_pos rd) 0 0") (simp add: readVarInt_def)

lemma readStack_loop_frame:
  "reader_buffer (snd (readStack_loop i depth rd stk)) = reader_buffer rd \<and>
   reader_pos rd \<le> reader_pos (snd (readStack_loop i depth rd stk))"
proof (induction i depth rd stk rule: readStack_loop.induct)
  case (1 i depth rd stk)
  show ?case
  proof (cases "i < depth")
    case False
    then show ?thesis by (subst (1 2) readStack_loop.simps) simp
  next
    case True
    obtain p rd' where r: "readPtr rd = (p, rd')" by (cases "readPtr rd")
    then have b: "reader_buffer rd' = reader_buffer rd" and le: "reader_pos rd \<le> reader_pos rd'"
      using readVarInt_buffer[of rd] readVarInt_pos_le[of rd] by (simp_all add: readPtr_def)
    from "1.IH"[OF True r[symmetric]] True r b le show ?thesis
      by (subst (1 2) readStack_loop.simps) simp
  qed
qed

lemma readStack_frame:
  "reader_buffer (snd (readStack rd)) = reader_buffer rd \<and> reader_pos rd \<le> reader_pos (snd (readStack rd))"
proof -
  obtain d rd' where r: "readVarInt rd = (d, rd')" by (cases "readVarInt rd")
  then have b: "reader_buffer rd' = reader_buffer rd" and le: "reader_pos rd \<le> reader_pos rd'"
    using readVarInt_buffer[of rd] readVarInt_pos_le[of rd] by simp_all
  show ?thesis
    using readStack_loop_frame[of 0 "unat (ucast d :: u32)" rd' "[]"] b le
    by (simp add: readStack_def r)
qed

lemma read_event_unfold:
  assumes "readVarInt rd = (ts, rd1)" and "readVarInt rd1 = (td, rd2)"
    and "readEventType rd2 = Inr (ty, rd3)"
    and "readVarInt rd3 = (p1, rd4)" and "readVarInt rd4 = (p2, rd5)"
    and "readVarInt rd5 = (rs, rd6)" and "readVarInt rd6 = (du, rd7)"
    and "readStack rd7 = (stk, rd8)"
  shows "read_event rd =
           Inr (\<lparr>timestamp = ts, tid = ucast td, type = ty, ptr1 = p1, ptr2 = p2,
                 result = ucast rs, duration_ns = du, stack = stk\<rparr>, rd8)"
  unfolding read_event_def readPtr_def
  by (simp only: assms prod.case sum.case)

lemma read_event_oob:
  assumes "readVarInt rd = (ts, rd1)" and "readVarInt rd1 = (td, rd2)"
    and "readEventType rd2 = Inl err"
  shows "read_event rd = Inl err"
  unfolding read_event_def
  by (simp only: assms prod.case sum.case)

lemma read_event_advances:
  assumes "read_event rd = Inr (ev, rd')" and "\<not> eof rd"
  shows "reader_buffer rd' = reader_buffer rd \<and> reader_pos rd < reader_pos rd'"
proof -
  obtain ts rd1 where a1: "readVarInt rd = (ts, rd1)" by (cases "readVarInt rd")
  obtain td rd2 where a2: "readVarInt rd1 = (td, rd2)" by (cases "readVarInt rd1")
  obtain ty rd3 where a3: "readEventType rd2 = Inr (ty, rd3)"
  proof (cases "readEventType rd2")
    case (Inl err)
    from read_event_oob[OF a1 a2 Inl] assms(1) show ?thesis by simp
  next
    case (Inr pr)
    then show ?thesis using that by (cases pr) simp
  qed
  obtain p1 rd4 where a4: "readVarInt rd3 = (p1, rd4)" by (cases "readVarInt rd3")
  obtain p2 rd5 where a5: "readVarInt rd4 = (p2, rd5)" by (cases "readVarInt rd4")
  obtain rs rd6 where a6: "readVarInt rd5 = (rs, rd6)" by (cases "readVarInt rd5")
  obtain du rd7 where a7: "readVarInt rd6 = (du, rd7)" by (cases "readVarInt rd6")
  obtain stk rd8 where a8: "readStack rd7 = (stk, rd8)" by (cases "readStack rd7")
  from assms(1) read_event_unfold[OF a1 a2 a3 a4 a5 a6 a7 a8] have rd': "rd' = rd8"
    by simp
  have s1: "reader_buffer rd1 = reader_buffer rd" "reader_pos rd < reader_pos rd1"
    using readVarInt_buffer[of rd] readVarInt_pos_less[of rd] assms(2) a1
    by (simp_all add: eof_def)
  have s2: "reader_buffer rd2 = reader_buffer rd1" "reader_pos rd1 \<le> reader_pos rd2"
    using readVarInt_buffer[of rd1] readVarInt_pos_le[of rd1] a2 by simp_all
  have s3: "reader_buffer rd3 = reader_buffer rd2" "reader_pos rd2 \<le> reader_pos rd3"
    using a3 by (auto simp: readEventType_def split: if_splits)
  have s4: "reader_buffer rd4 = reader_buffer rd3" "reader_pos rd3 \<le> reader_pos rd4"
    using readVarInt_buffer[of rd3] readVarInt_pos_le[of rd3] a4 by simp_all
  have s5: "reader_buffer rd5 = reader_buffer rd4" "reader_pos rd4 \<le> reader_pos rd5"
    using readVarInt_buffer[of rd4] readVarInt_pos_le[of rd4] a5 by simp_all
  have s6: "reader_buffer rd6 = reader_buffer rd5" "reader_pos rd5 \<le> reader_pos rd6"
    using readVarInt_buffer[of rd5] readVarInt_pos_le[of rd5] a6 by simp_all
  have s7: "reader_buffer rd7 = reader_buffer rd6" "reader_pos rd6 \<le> reader_pos rd7"
    using readVarInt_buffer[of rd6] readVarInt_pos_le[of rd6] a7 by simp_all
  have s8: "reader_buffer rd8 = reader_buffer rd7" "reader_pos rd7 \<le> reader_pos rd8"
    using readStack_frame[of rd7] a8 by simp_all
  from s1 s2 s3 s4 s5 s6 s7 s8 rd' show ?thesis by simp
qed

text \<open>
  The loop of \<^verbatim>\<open>main\<close>: while the reader is not at the end, decode one record and print it.
  The model collects the records in the order they are printed. It terminates because
  every iteration consumes at least the first byte of the timestamp.
\<close>

function process_events :: "VarIntReader \<Rightarrow> Event list \<Rightarrow> reader_error + Event list" where
  "process_events rd out =
     (if eof rd then Inr out
      else (case read_event rd of
              Inl err \<Rightarrow> Inl err
            | Inr (ev, rd') \<Rightarrow> process_events rd' (out @ [ev])))"
  by pat_completeness auto
termination
proof (relation "measure (\<lambda>(rd, out). length (reader_buffer rd) - reader_pos rd)")
  show "wf (measure (\<lambda>(rd, out). length (reader_buffer rd) - reader_pos rd))" by simp
next
  fix rd :: VarIntReader and out :: "Event list" and x2 x y
  assume ne: "\<not> eof rd" and r: "read_event rd = Inr x2" and x: "(x, y) = x2"
  from r x have "read_event rd = Inr (x, y)" by simp
  from read_event_advances[OF this ne] ne
  have "length (reader_buffer y) - reader_pos y < length (reader_buffer rd) - reader_pos rd"
    unfolding eof_def by (elim conjE) simp
  then show "((y, out @ [x]), (rd, out)) \<in> measure (\<lambda>(rd, out). length (reader_buffer rd) - reader_pos rd)"
    by simp
qed

declare process_events.simps [simp del]

text \<open>
  \<^verbatim>\<open>main\<close> after the file has been read into the buffer: the records printed and the
  exit status of line 246.
\<close>

definition reader_main :: "u8 list \<Rightarrow> reader_error + (Event list \<times> int)" where
  "reader_main file =
     (case process_events \<lparr>reader_buffer = file, reader_pos = 0\<rparr> [] of
        Inl err \<Rightarrow> Inl err
      | Inr evs \<Rightarrow> Inr (evs, 0))"

subsection \<open>Unfolding the encoder\<close>

lemma encodeVarInt_more:
  "drop_bit 7 v \<noteq> 0 \<Longrightarrow>
   encodeVarInt v buffer = encodeVarInt (drop_bit 7 v) (buffer @ [ucast (v AND 0x7F) OR 0x80])"
  by (subst encodeVarInt.simps) simp

lemma encodeVarInt_last:
  "drop_bit 7 v = 0 \<Longrightarrow> encodeVarInt v buffer = buffer @ [ucast (v AND 0x7F)]"
  by (subst encodeVarInt.simps) simp

lemma encodeVarInt_append: "encodeVarInt v buffer = buffer @ encodeVarInt v []"
proof (induction "unat v" arbitrary: v buffer rule: less_induct)
  case less
  show ?case
  proof (cases "drop_bit 7 v = 0")
    case True
    then show ?thesis by (simp add: encodeVarInt_last)
  next
    case False
    let ?b = "(ucast (v AND 0x7F) OR 0x80) :: u8"
    have ih: "encodeVarInt (drop_bit 7 v) b = b @ encodeVarInt (drop_bit 7 v) []" for b
      using less[OF drop_bit_7_less[OF False]] .
    have "encodeVarInt v buffer = (buffer @ [?b]) @ encodeVarInt (drop_bit 7 v) []"
      using encodeVarInt_more[OF False, of buffer] ih[of "buffer @ [?b]"] by simp
    moreover have "encodeVarInt v [] = [?b] @ encodeVarInt (drop_bit 7 v) []"
      using encodeVarInt_more[OF False, of "[]"] ih[of "[?b]"] by simp
    ultimately show ?thesis by simp
  qed
qed

lemma x7F_mask: "(0x7F :: 'a::len word) = mask 7"
  by (simp add: mask_eq_decr_exp)

lemma bit_x80_int: "bit (128 :: int) n \<longleftrightarrow> n = 7"
proof -
  have "(128 :: int) = 2 ^ 7" by simp
  then show ?thesis by (simp only: bit_exp_iff) auto
qed

lemma bit_x80_nat: "bit (128 :: nat) n \<longleftrightarrow> n = 7"
proof -
  have "(128 :: nat) = 2 ^ 7" by simp
  then show ?thesis by (simp only: bit_exp_iff) auto
qed

lemma bit_x80_word: "bit (128 :: 'a::len word) n \<longleftrightarrow> n = 7 \<and> 7 < LENGTH('a)"
proof -
  have "(128 :: 'a word) = 2 ^ 7" by simp
  then show ?thesis by (simp only: bit_exp_iff) (auto simp: possible_bit_word)
qed

lemmas bit_x80 = bit_x80_int bit_x80_nat bit_x80_word

lemma low7_cont: "ucast (((ucast ((v::u64) AND 0x7F) :: u8) OR 0x80) AND 0x7F) = v AND 0x7F"
  unfolding x7F_mask
  by (rule bit_word_eqI) (auto simp: bit_simps bit_x80)

lemma low7_last: "(ucast (((ucast ((v::u64) AND 0x7F) :: u8)) AND 0x7F) :: u64) = v AND 0x7F"
  unfolding x7F_mask
  by (rule bit_word_eqI) (auto simp: bit_simps)

lemma cont_flag: "((ucast ((v::u64) AND 0x7F) :: u8) OR 0x80) AND 0x80 \<noteq> 0"
proof
  assume "((ucast (v AND 0x7F) :: u8) OR 0x80) AND 0x80 = 0"
  then have "bit (((ucast (v AND 0x7F) :: u8) OR 0x80) AND 0x80) 7 = bit (0 :: u8) 7"
    by (rule arg_cong)
  then show False by (simp add: bit_simps bit_x80)
qed

lemma last_flag: "((ucast ((v::u64) AND 0x7F) :: u8)) AND 0x80 = 0"
  unfolding x7F_mask
  by (rule bit_word_eqI) (auto simp: bit_simps bit_x80)

lemma split7: "push_bit s ((v::u64) AND 0x7F) OR push_bit (s + 7) (drop_bit 7 v) = push_bit s v"
  unfolding x7F_mask
proof (rule bit_word_eqI)
  fix n assume "n < LENGTH(64)"
  show "bit (push_bit s (v AND mask 7) OR push_bit (s + 7) (drop_bit 7 v)) n = bit (push_bit s v) n"
  proof (cases "s + 7 \<le> n")
    case True
    then have "7 + (n - (s + 7)) = n - s" "s \<le> n" "\<not> n - s < 7" by arith+
    then show ?thesis by (simp add: bit_simps True)
  next
    case False
    then have "s \<le> n \<Longrightarrow> n - s < 7" by arith
    then show ?thesis using False by (auto simp: bit_simps)
  qed
qed

lemma varint_more: "drop_bit 7 v \<noteq> 0 \<Longrightarrow> varint v = (ucast (v AND 0x7F) OR 0x80) # varint (drop_bit 7 v)"
  unfolding varint_def
  by (subst encodeVarInt_more, assumption, subst encodeVarInt_append) simp

lemma varint_last: "drop_bit 7 v = 0 \<Longrightarrow> varint v = [ucast (v AND 0x7F)]"
  unfolding varint_def by (simp add: encodeVarInt_last)

lemma readVarInt_loop_stop:
  "pos < length buf \<Longrightarrow> buf ! pos AND 0x80 = 0 \<Longrightarrow>
   readVarInt_loop buf pos res shift
     = (res OR push_bit shift (ucast (buf ! pos AND 0x7F)), pos + 1)"
  by (subst readVarInt_loop.simps) simp

lemma readVarInt_loop_cont:
  "pos < length buf \<Longrightarrow> buf ! pos AND 0x80 \<noteq> 0 \<Longrightarrow>
   readVarInt_loop buf pos res shift
     = readVarInt_loop buf (pos + 1) (res OR push_bit shift (ucast (buf ! pos AND 0x7F))) (shift + 7)"
  by (subst readVarInt_loop.simps) simp

lemma readVarInt_loop_eof:
  "length buf \<le> pos \<Longrightarrow> readVarInt_loop buf pos res shift = (res, pos)"
  by (subst readVarInt_loop.simps) simp

lemma low7_all: "drop_bit 7 (v::u64) = 0 \<Longrightarrow> v AND 0x7F = v"
  unfolding x7F_mask
  by (simp add: take_bit_eq_self_iff_drop_bit_eq_0 flip: take_bit_eq_mask)

lemma readVarInt_loop_varint:
  "readVarInt_loop (pre @ varint v @ post) (length pre) res shift
     = (res OR push_bit shift v, length pre + length (varint v))"
proof (induction "unat v" arbitrary: v pre res shift rule: less_induct)
  case less
  show ?case
  proof (cases "drop_bit 7 v = 0")
    case True
    let ?b = "ucast (v AND 0x7F) :: u8"
    have enc: "varint v = [?b]" using True by (rule varint_last)
    have at: "(pre @ [?b] @ post) ! length pre = ?b" by (simp add: nth_append)
    have "readVarInt_loop (pre @ [?b] @ post) (length pre) res shift
            = (res OR push_bit shift (ucast (?b AND 0x7F)), length pre + 1)"
      by (rule readVarInt_loop_stop[where buf="pre @ [?b] @ post" and pos="length pre", unfolded at])
         (simp_all add: last_flag)
    moreover have "(ucast (?b AND 0x7F) :: u64) = v"
      using low7_last[of v] low7_all[OF True] by simp
    ultimately show ?thesis
      by (simp only: enc) simp
  next
    case False
    let ?b = "(ucast (v AND 0x7F) OR 0x80) :: u8"
    have enc: "varint v = ?b # varint (drop_bit 7 v)" using False by (rule varint_more)
    have at: "(pre @ (?b # varint (drop_bit 7 v)) @ post) ! length pre = ?b" by (simp add: nth_append)
    have ih: "readVarInt_loop ((pre @ [?b]) @ varint (drop_bit 7 v) @ post) (length (pre @ [?b]))
                (res OR push_bit shift (v AND 0x7F)) (shift + 7)
              = ((res OR push_bit shift (v AND 0x7F)) OR push_bit (shift + 7) (drop_bit 7 v),
                 length (pre @ [?b]) + length (varint (drop_bit 7 v)))"
      using less[OF drop_bit_7_less[OF False]] .
    have "readVarInt_loop (pre @ (?b # varint (drop_bit 7 v)) @ post) (length pre) res shift
            = readVarInt_loop (pre @ (?b # varint (drop_bit 7 v)) @ post) (length pre + 1)
                (res OR push_bit shift (ucast (?b AND 0x7F))) (shift + 7)"
      by (rule readVarInt_loop_cont[where buf="pre @ (?b # varint (drop_bit 7 v)) @ post" and pos="length pre", unfolded at])
         (simp_all add: cont_flag)
    also have "\<dots> = ((res OR push_bit shift (v AND 0x7F)) OR push_bit (shift + 7) (drop_bit 7 v),
                 length (pre @ [?b]) + length (varint (drop_bit 7 v)))"
      using ih by (simp add: low7_cont)
    finally have main:
      "readVarInt_loop (pre @ (?b # varint (drop_bit 7 v)) @ post) (length pre) res shift
         = ((res OR push_bit shift (v AND 0x7F)) OR push_bit (shift + 7) (drop_bit 7 v),
            length (pre @ [?b]) + length (varint (drop_bit 7 v)))" .
    have fin: "(res OR push_bit shift (v AND 0x7F)) OR push_bit (shift + 7) (drop_bit 7 v)
                 = res OR push_bit shift v"
      by (simp only: or.assoc split7)
    show ?thesis
      unfolding enc main fin by simp
  qed
qed

lemma varint_length_bound: "unat v < 2 ^ (7 * k) \<Longrightarrow> 0 < k \<Longrightarrow> length (varint v) \<le> k"
proof (induction k arbitrary: v)
  case 0
  then show ?case by simp
next
  case (Suc k)
  show ?case
  proof (cases "drop_bit 7 v = 0")
    case True
    then show ?thesis by (simp add: varint_last)
  next
    case False
    have u: "unat (drop_bit 7 v) = unat v div 2 ^ 7"
      by (simp add: drop_bit_eq_div unat_div)
    have "unat v < 2 ^ 7 * 2 ^ (7 * k)" using Suc.prems(1) by (simp add: power_add)
    then have lt: "unat (drop_bit 7 v) < 2 ^ (7 * k)"
      unfolding u by (simp add: less_mult_imp_div_less mult.commute)
    have "0 < k"
    proof (rule ccontr)
      assume "\<not> 0 < k"
      with lt have "unat (drop_bit 7 v) = 0" by simp
      with False show False by (simp add: unat_eq_0)
    qed
    from Suc.IH[OF lt this] show ?thesis by (simp add: varint_more[OF False])
  qed
qed

lemma varint_le_10: "length (varint v) \<le> 10"
proof -
  have "unat v < 2 ^ 64" using unsigned_less[of v] by simp
  also have "\<dots> \<le> (2::nat) ^ (7 * 10)" by simp
  finally show ?thesis by (rule varint_length_bound) simp
qed

lemma varint_0: "varint 0 = [0]"
  by (simp add: varint_last)


lemma varint_round_trip_aux:
  "readVarInt \<lparr>reader_buffer = encodeVarInt v [], reader_pos = 0\<rparr>
     = (v, \<lparr>reader_buffer = encodeVarInt v [], reader_pos = length (encodeVarInt v [])\<rparr>)"
proof -
  have "readVarInt_loop (encodeVarInt v []) 0 0 0 = (v, length (encodeVarInt v []))"
    using readVarInt_loop_varint[of "[]" v "[]" 0 0] by (simp add: varint_def)
  then show ?thesis by (simp add: readVarInt_def)
qed

text \<open>
  C2. Varint round-trip: decoding the little-endian base-128 encoding of any unsigned
  64-bit value gives the value back and leaves the reader just past the encoding; the
  encoding has at most ten bytes; zero is encoded as the single byte 0.
\<close>

theorem varint_round_trip:
  "readVarInt \<lparr>reader_buffer = encodeVarInt v [], reader_pos = 0\<rparr>
     = (v, \<lparr>reader_buffer = encodeVarInt v [], reader_pos = length (encodeVarInt v [])\<rparr>)
   \<and> length (encodeVarInt v []) \<le> 10
   \<and> encodeVarInt 0 [] = [0]"
proof -
  have "length (encodeVarInt v []) \<le> 10"
    using varint_le_10[of v] by (simp add: varint_def)
  moreover have "encodeVarInt 0 [] = [0]"
    using varint_0 by (simp add: varint_def)
  ultimately show ?thesis using varint_round_trip_aux[of v] by simp
qed

theorem varint_round_trip_witness:
  "encodeVarInt 300 [] = [0xAC, 0x02]
   \<and> readVarInt \<lparr>reader_buffer = [0xAC, 0x02], reader_pos = 0\<rparr>
       = (300, \<lparr>reader_buffer = [0xAC, 0x02], reader_pos = 2\<rparr>)
   \<and> length (encodeVarInt 300 []) \<le> 10"
proof -
  have enc: "encodeVarInt 300 [] = [0xAC, 0x02]" by code_simp
  from varint_round_trip[of 300] show ?thesis unfolding enc by simp
qed

subsection \<open>What the writer appends\<close>

lemma varint_nonempty: "1 \<le> length (varint v)"
proof (cases "drop_bit 7 v = 0")
  case True
  then show ?thesis by (simp add: varint_last)
next
  case False
  then show ?thesis by (simp add: varint_more)
qed

lemma write_u64_append: "write_u64 v buffer = buffer @ varint v"
  unfolding write_u64_def varint_def by (rule encodeVarInt_append)

lemma writePtr_append: "writePtr p buffer = buffer @ varint p"
  unfolding writePtr_def varint_def by (rule encodeVarInt_append)

lemma writeStack_loop_append:
  "depth \<le> length stk \<Longrightarrow> i \<le> depth \<Longrightarrow>
   writeStack_loop stk depth i buffer = buffer @ concat (map varint (drop i (take depth stk)))"
proof (induction "depth - i" arbitrary: i buffer)
  case 0
  then have "i = depth" by simp
  then show ?case by (subst writeStack_loop.simps) simp
next
  case (Suc n)
  then have lt: "i < depth" and n: "n = depth - (i + 1)" by simp_all
  have i_len: "i < length (take depth stk)" using lt Suc.prems(1) by simp
  have step: "drop i (take depth stk) = stk ! i # drop (i + 1) (take depth stk)"
    using Cons_nth_drop_Suc[OF i_len] lt by simp
  have "writeStack_loop stk depth i buffer
          = writeStack_loop stk depth (i + 1) (encodeVarInt (stk ! i) buffer)"
    using lt by (subst writeStack_loop.simps) simp
  also have "\<dots> = encodeVarInt (stk ! i) buffer
                      @ concat (map varint (drop (i + 1) (take depth stk)))"
    using Suc.hyps(1)[OF n Suc.prems(1)] lt by simp
  also have "encodeVarInt (stk ! i) buffer = buffer @ varint (stk ! i)"
    unfolding varint_def by (rule encodeVarInt_append)
  finally show ?case by (simp add: step)
qed

lemma unat_of_nat_depth:
  "n \<le> MAX_STACK_DEPTH \<Longrightarrow> unat (of_nat n :: u32) = n"
  by (simp add: MAX_STACK_DEPTH_def unat_of_nat)

lemma writeStack_append:
  "length stk \<le> MAX_STACK_DEPTH \<Longrightarrow>
   writeStack stk (of_nat (length stk)) buffer
     = buffer @ varint (of_nat (length stk)) @ concat (map varint stk)"
proof -
  assume le: "length stk \<le> MAX_STACK_DEPTH"
  have d: "unat (of_nat (length stk) :: u32) = length stk"
    using le by (rule unat_of_nat_depth)
  have w: "(ucast (of_nat (length stk) :: u32) :: u64) = of_nat (length stk)"
    using le by (simp add: MAX_STACK_DEPTH_def unsigned_of_nat take_bit_nat_eq_self)
  have "encodeVarInt (ucast (of_nat (length stk) :: u32)) buffer
          = buffer @ varint (of_nat (length stk))"
    unfolding w varint_def by (rule encodeVarInt_append)
  then show ?thesis
    unfolding writeStack_def d
    using writeStack_loop_append[of "length stk" stk 0] by simp
qed

lemma serialize_into_eq:
  "length (stack e) \<le> MAX_STACK_DEPTH \<Longrightarrow>
   serialize_into e writer =
     varint (timestamp e) @ varint (ucast (tid e)) @ [type e]
       @ varint (ptr1 e) @ varint (ptr2 e)
       @ varint (scast (result e)) @ varint (duration_ns e)
       @ varint (of_nat (length (stack e))) @ concat (map varint (stack e))"
  unfolding serialize_into_def Let_def
  by (simp add: writeStack_append write_u64_append writePtr_append write_EventType_def clear_def)

text \<open>
  \<^verbatim>\<open>writer_.clear()\<close> comes first, so the bytes do not depend on what the scratch buffer
  held before: \<open>serialize e\<close> names them.
\<close>

lemma serialize_into_writer:
  "length (stack e) \<le> MAX_STACK_DEPTH \<Longrightarrow> serialize_into e w = serialize e"
  unfolding serialize_def by (simp add: serialize_into_eq)

text \<open>
  The layout the sentence of the specification describes, for seven varint values \<open>vs\<close>:
  seven varints, then one raw byte for the kind, then the length-prefixed stack.
\<close>

definition seven_varints_kind_stack :: "u64 list \<Rightarrow> EventType \<Rightarrow> u64 list \<Rightarrow> u8 list" where
  "seven_varints_kind_stack vs k stk =
     concat (map varint vs) @ [k] @ writeStack stk (of_nat (length stk)) []"

lemma concat_varint_length: "length vs \<le> length (concat (map varint vs))"
proof (induction vs)
  case Nil
  then show ?case by simp
next
  case (Cons v vs)
  then show ?case using varint_nonempty[of v] by simp
qed

definition example_event :: Event where
  "example_event = \<lparr>timestamp = 1, tid = 2, type = MutexLock, ptr1 = 4, ptr2 = 5,
                      result = 6, duration_ns = 7, stack = []\<rparr>"

lemma varint_small: "v < 0x80 \<Longrightarrow> varint v = [ucast v]"
proof -
  assume lt: "v < 0x80"
  then have "unat v < 2 ^ 7" by (simp add: word_less_nat_alt)
  then have d: "drop_bit 7 v = 0"
    by (simp add: drop_bit_eq_div word_eq_iff_unsigned[where ?'a = nat] unat_div)
  from low7_all[OF d] varint_last[OF d] show ?thesis by simp
qed

lemma serialize_example: "serialize example_event = [1, 2, 3, 4, 5, 6, 7, 0]"
  unfolding serialize_def
  by (subst serialize_into_eq)
     (simp_all add: example_event_def MAX_STACK_DEPTH_def MutexLock_def varint_small)

text \<open>
  C3 as stated fails: a record is not seven varints followed by the kind byte and the
  stack. The example record serializes to eight bytes with the kind byte in third place,
  while seven varints, a kind byte and a stack prefix need at least nine.
\<close>

theorem wire_layout_counterexample:
  "serialize example_event = [1, 2, 3, 4, 5, 6, 7, 0]
   \<and> serialize example_event ! 2 = type example_event
   \<and> \<not> (\<exists>vs. length vs = 7
            \<and> serialize example_event
                = seven_varints_kind_stack vs (type example_event) (stack example_event))"
proof -
  have "serialize example_event \<noteq> seven_varints_kind_stack vs k stk" if "length vs = 7" for vs k stk
  proof -
    have "7 \<le> length (concat (map varint vs))"
      using concat_varint_length[of vs] that by simp
    then have "8 < length (seven_varints_kind_stack vs k stk) \<or>
               writeStack stk (of_nat (length stk)) [] = []"
      unfolding seven_varints_kind_stack_def by (cases "writeStack stk (of_nat (length stk)) []") auto
    moreover have "writeStack stk (of_nat (length stk)) [] \<noteq> []"
    proof -
      have "writeStack_loop stk d i b \<noteq> []" if "b \<noteq> []" for d i b
        using that
      proof (induction stk d i b rule: writeStack_loop.induct)
        case (1 stk depth i buffer)
        have ne: "encodeVarInt (stk ! i) buffer \<noteq> []"
          using encodeVarInt_append[of "stk ! i" buffer] "1.prems" by simp
        show ?case
        proof (cases "i < depth")
          case True
          with "1.IH"[OF True ne] show ?thesis by (subst writeStack_loop.simps) simp
        next
          case False
          with "1.prems" show ?thesis by (subst writeStack_loop.simps) simp
        qed
      qed
      moreover have "encodeVarInt v [] \<noteq> []" for v
        using varint_nonempty[of v] by (auto simp: varint_def)
      ultimately show ?thesis unfolding writeStack_def by blast
    qed
    ultimately have "8 < length (seven_varints_kind_stack vs k stk)" by blast
    moreover have "length (serialize example_event) = 8" by (simp add: serialize_example)
    ultimately show ?thesis by auto
  qed
  then have "\<not> (\<exists>vs. length vs = 7
            \<and> serialize example_event
                = seven_varints_kind_stack vs (type example_event) (stack example_event))"
    by blast
  moreover have "serialize example_event ! 2 = type example_event"
    unfolding serialize_example by (simp add: example_event_def MutexLock_def)
  ultimately show ?thesis using serialize_example by blast
qed

text \<open>
  C3, amended. Whatever the scratch buffer held before, the bytes \<^verbatim>\<open>EventLogger::log\<close>
  builds for a record with at most 16 frames are, in this order: the timestamp as a varint,
  the tid as a varint, the kind as one raw byte, then ptr1, ptr2, the result (sign-extended
  to 64 bits) and duration_ns as varints, then the stack as a varint count followed by one
  varint per frame. Six scalar fields are varints and the kind byte stands third, between
  tid and ptr1.
\<close>

theorem wire_layout:
  "length (stack e) \<le> MAX_STACK_DEPTH \<Longrightarrow>
   serialize_into e w =
     encodeVarInt (timestamp e) [] @ encodeVarInt (ucast (tid e)) [] @ [type e]
       @ encodeVarInt (ptr1 e) [] @ encodeVarInt (ptr2 e) []
       @ encodeVarInt (scast (result e)) [] @ encodeVarInt (duration_ns e) []
       @ encodeVarInt (of_nat (length (stack e))) []
       @ concat (map (\<lambda>frame. encodeVarInt frame []) (stack e))"
proof -
  assume le: "length (stack e) \<le> MAX_STACK_DEPTH"
  have m: "map (\<lambda>frame. encodeVarInt frame []) (stack e) = map varint (stack e)"
    by (simp add: varint_def)
  show ?thesis
    unfolding m serialize_into_eq[OF le] by (simp add: varint_def)
qed

theorem wire_layout_witness:
  "length (stack example_event) \<le> MAX_STACK_DEPTH
   \<and> serialize_into example_event [0xAA, 0xBB, 0xCC] =
     encodeVarInt 1 [] @ encodeVarInt 2 [] @ [MutexLock]
       @ encodeVarInt 4 [] @ encodeVarInt 5 [] @ encodeVarInt 6 [] @ encodeVarInt 7 []
       @ encodeVarInt 0 []"
proof -
  have le: "length (stack example_event) \<le> MAX_STACK_DEPTH"
    by (simp add: example_event_def MAX_STACK_DEPTH_def)
  show ?thesis
    using le wire_layout[OF le, of "[0xAA, 0xBB, 0xCC]"] by (simp add: example_event_def)
qed

subsection \<open>Reading back what the writer appended\<close>

lemma readVarInt_at:
  "readVarInt \<lparr>reader_buffer = pre @ varint v @ post, reader_pos = length pre\<rparr>
     = (v, \<lparr>reader_buffer = pre @ varint v @ post, reader_pos = length pre + length (varint v)\<rparr>)"
  using readVarInt_loop_varint[of pre v post 0 0] by (simp add: readVarInt_def)

lemma readEventType_at:
  "readEventType \<lparr>reader_buffer = pre @ [k] @ post, reader_pos = length pre\<rparr>
     = Inr (k, \<lparr>reader_buffer = pre @ [k] @ post, reader_pos = length pre + 1\<rparr>)"
  by (simp add: readEventType_def nth_append)

lemma readStack_loop_at:
  "depth = i + length xs \<Longrightarrow>
   readStack_loop i depth
       \<lparr>reader_buffer = pre @ concat (map varint xs) @ post, reader_pos = length pre\<rparr> acc
     = (acc @ xs, \<lparr>reader_buffer = pre @ concat (map varint xs) @ post,
                    reader_pos = length pre + length (concat (map varint xs))\<rparr>)"
proof (induction xs arbitrary: i pre acc)
  case Nil
  then show ?case by (subst readStack_loop.simps) simp
next
  case (Cons x xs)
  let ?buf = "pre @ concat (map varint (x # xs)) @ post"
  have buf1: "?buf = pre @ varint x @ (concat (map varint xs) @ post)" by simp
  have buf2: "?buf = (pre @ varint x) @ concat (map varint xs) @ post" by simp
  have lt: "i < depth" using Cons.prems by simp
  have rd: "readPtr \<lparr>reader_buffer = ?buf, reader_pos = length pre\<rparr>
              = (x, \<lparr>reader_buffer = ?buf, reader_pos = length (pre @ varint x)\<rparr>)"
    unfolding readPtr_def buf1 using readVarInt_at[of pre x "concat (map varint xs) @ post"]
    by simp
  have d: "depth = (i + 1) + length xs" using Cons.prems by simp
  have "readStack_loop i depth \<lparr>reader_buffer = ?buf, reader_pos = length pre\<rparr> acc
          = readStack_loop (i + 1) depth
              \<lparr>reader_buffer = ?buf, reader_pos = length (pre @ varint x)\<rparr> (acc @ [x])"
    using lt by (subst readStack_loop.simps) (simp only: rd if_True prod.case)
  also have "\<dots> = ((acc @ [x]) @ xs,
                     \<lparr>reader_buffer = ?buf,
                      reader_pos = length (pre @ varint x) + length (concat (map varint xs))\<rparr>)"
    unfolding buf2 using Cons.IH[OF d, of "pre @ varint x" "acc @ [x]"] .
  finally show ?case by simp
qed

lemma readStack_at:
  assumes "length xs \<le> MAX_STACK_DEPTH"
  shows "readStack \<lparr>reader_buffer = pre @ (varint (of_nat (length xs)) @ concat (map varint xs)) @ post,
                    reader_pos = length pre\<rparr>
     = (xs, \<lparr>reader_buffer = pre @ (varint (of_nat (length xs)) @ concat (map varint xs)) @ post,
              reader_pos = length pre
                 + length (varint (of_nat (length xs)) @ concat (map varint xs))\<rparr>)"
proof -
  let ?n = "of_nat (length xs) :: u64"
  let ?buf = "pre @ (varint ?n @ concat (map varint xs)) @ post"
  have buf1: "?buf = pre @ varint ?n @ (concat (map varint xs) @ post)" by simp
  have buf2: "?buf = (pre @ varint ?n) @ concat (map varint xs) @ post" by simp
  have d: "unat (ucast ?n :: u32) = length xs"
    using assms by (simp add: MAX_STACK_DEPTH_def unat_of_nat unsigned_of_nat take_bit_nat_eq_self)
  have r: "readVarInt \<lparr>reader_buffer = ?buf, reader_pos = length pre\<rparr>
             = (?n, \<lparr>reader_buffer = ?buf, reader_pos = length (pre @ varint ?n)\<rparr>)"
    unfolding buf1 using readVarInt_at[of pre ?n "concat (map varint xs) @ post"] by simp
  have "readStack \<lparr>reader_buffer = ?buf, reader_pos = length pre\<rparr>
          = readStack_loop 0 (length xs)
              \<lparr>reader_buffer = ?buf, reader_pos = length (pre @ varint ?n)\<rparr> []"
    unfolding readStack_def by (simp only: r prod.case d)
  also have "\<dots> = ([] @ xs, \<lparr>reader_buffer = ?buf,
                      reader_pos = length (pre @ varint ?n) + length (concat (map varint xs))\<rparr>)"
    unfolding buf2 by (rule readStack_loop_at) simp
  finally show ?thesis by simp
qed

lemma read_event_at:
  assumes le: "length (stack e) \<le> MAX_STACK_DEPTH"
  shows "read_event \<lparr>reader_buffer = pre @ serialize e @ post, reader_pos = length pre\<rparr>
           = Inr (e, \<lparr>reader_buffer = pre @ serialize e @ post,
                       reader_pos = length pre + length (serialize e)\<rparr>)"
proof -
  define A where "A = varint (timestamp e)"
  define B where "B = varint (ucast (tid e))"
  define C where "C = varint (ptr1 e)"
  define D where "D = varint (ptr2 e)"
  define E where "E = varint (scast (result e))"
  define F where "F = varint (duration_ns e)"
  define G where "G = varint (of_nat (length (stack e))) @ concat (map varint (stack e))"
  define buf where "buf = pre @ serialize e @ post"
  have ser: "serialize e = A @ B @ [type e] @ C @ D @ E @ F @ G"
    unfolding serialize_def serialize_into_eq[OF le] A_def B_def C_def D_def E_def F_def G_def
    by simp
  have b1: "buf = pre @ A @ (B @ [type e] @ C @ D @ E @ F @ G @ post)"
    and b2: "buf = (pre @ A) @ B @ ([type e] @ C @ D @ E @ F @ G @ post)"
    and b3: "buf = (pre @ A @ B) @ [type e] @ (C @ D @ E @ F @ G @ post)"
    and b4: "buf = (pre @ A @ B @ [type e]) @ C @ (D @ E @ F @ G @ post)"
    and b5: "buf = (pre @ A @ B @ [type e] @ C) @ D @ (E @ F @ G @ post)"
    and b6: "buf = (pre @ A @ B @ [type e] @ C @ D) @ E @ (F @ G @ post)"
    and b7: "buf = (pre @ A @ B @ [type e] @ C @ D @ E) @ F @ (G @ post)"
    and b8: "buf = (pre @ A @ B @ [type e] @ C @ D @ E @ F) @ G @ post"
    unfolding buf_def ser by simp_all
  have r1: "readVarInt \<lparr>reader_buffer = buf, reader_pos = length pre\<rparr>
              = (timestamp e, \<lparr>reader_buffer = buf, reader_pos = length (pre @ A)\<rparr>)"
    unfolding b1 A_def using readVarInt_at[of pre "timestamp e"] by simp
  have r2: "readVarInt \<lparr>reader_buffer = buf, reader_pos = length (pre @ A)\<rparr>
              = (ucast (tid e), \<lparr>reader_buffer = buf, reader_pos = length (pre @ A @ B)\<rparr>)"
    unfolding b2 B_def using readVarInt_at[of "pre @ A" "ucast (tid e)"] by simp
  have r3: "readEventType \<lparr>reader_buffer = buf, reader_pos = length (pre @ A @ B)\<rparr>
              = Inr (type e, \<lparr>reader_buffer = buf, reader_pos = length (pre @ A @ B @ [type e])\<rparr>)"
    unfolding b3 using readEventType_at[of "pre @ A @ B" "type e"] by simp
  have r4: "readVarInt \<lparr>reader_buffer = buf, reader_pos = length (pre @ A @ B @ [type e])\<rparr>
              = (ptr1 e, \<lparr>reader_buffer = buf, reader_pos = length (pre @ A @ B @ [type e] @ C)\<rparr>)"
    unfolding b4 C_def using readVarInt_at[of "pre @ A @ B @ [type e]" "ptr1 e"] by simp
  have r5: "readVarInt \<lparr>reader_buffer = buf, reader_pos = length (pre @ A @ B @ [type e] @ C)\<rparr>
              = (ptr2 e, \<lparr>reader_buffer = buf, reader_pos = length (pre @ A @ B @ [type e] @ C @ D)\<rparr>)"
    unfolding b5 D_def using readVarInt_at[of "pre @ A @ B @ [type e] @ C" "ptr2 e"] by simp
  have r6: "readVarInt \<lparr>reader_buffer = buf, reader_pos = length (pre @ A @ B @ [type e] @ C @ D)\<rparr>
              = (scast (result e),
                 \<lparr>reader_buffer = buf, reader_pos = length (pre @ A @ B @ [type e] @ C @ D @ E)\<rparr>)"
    unfolding b6 E_def using readVarInt_at[of "pre @ A @ B @ [type e] @ C @ D" "scast (result e)"]
    by simp
  have r7: "readVarInt \<lparr>reader_buffer = buf, reader_pos = length (pre @ A @ B @ [type e] @ C @ D @ E)\<rparr>
              = (duration_ns e,
                 \<lparr>reader_buffer = buf, reader_pos = length (pre @ A @ B @ [type e] @ C @ D @ E @ F)\<rparr>)"
    unfolding b7 F_def
    using readVarInt_at[of "pre @ A @ B @ [type e] @ C @ D @ E" "duration_ns e"] by simp
  have r8: "readStack \<lparr>reader_buffer = buf, reader_pos = length (pre @ A @ B @ [type e] @ C @ D @ E @ F)\<rparr>
              = (stack e,
                 \<lparr>reader_buffer = buf,
                  reader_pos = length (pre @ A @ B @ [type e] @ C @ D @ E @ F) + length G\<rparr>)"
    unfolding b8 G_def
    using readStack_at[OF le, of "pre @ A @ B @ [type e] @ C @ D @ E @ F" post] by simp
  have narrow_tid: "(ucast (ucast (tid e) :: u64) :: u32) = tid e"
    by (rule bit_word_eqI) (auto simp: bit_simps)
  have narrow_res: "(ucast (scast (result e) :: u64) :: i32) = result e"
    by (rule bit_word_eqI) (auto simp: bit_simps)
  have "read_event \<lparr>reader_buffer = buf, reader_pos = length pre\<rparr>
          = Inr (\<lparr>timestamp = timestamp e, tid = ucast (ucast (tid e) :: u64), type = type e,
                  ptr1 = ptr1 e, ptr2 = ptr2 e, result = ucast (scast (result e) :: u64),
                  duration_ns = duration_ns e, stack = stack e\<rparr>,
                 \<lparr>reader_buffer = buf,
                  reader_pos = length (pre @ A @ B @ [type e] @ C @ D @ E @ F) + length G\<rparr>)"
    by (rule read_event_unfold[OF r1 r2 r3 r4 r5 r6 r7 r8])
  then show ?thesis
    unfolding narrow_tid narrow_res buf_def[symmetric] by (simp add: ser)
qed

lemma serialize_nonempty: "length (stack e) \<le> MAX_STACK_DEPTH \<Longrightarrow> serialize e \<noteq> []"
  unfolding serialize_def
  using varint_nonempty[of "timestamp e"] by (auto simp: serialize_into_eq)

lemma process_events_at:
  assumes "\<forall>e \<in> set es. length (stack e) \<le> MAX_STACK_DEPTH"
  shows "process_events
           \<lparr>reader_buffer = pre @ concat (map serialize es), reader_pos = length pre\<rparr> out
         = Inr (out @ es)"
  using assms
proof (induction es arbitrary: pre out)
  case Nil
  then show ?case by (subst process_events.simps) (simp add: eof_def)
next
  case (Cons e es)
  let ?buf = "pre @ concat (map serialize (e # es))"
  have le: "length (stack e) \<le> MAX_STACK_DEPTH" using Cons.prems by simp
  have buf1: "?buf = pre @ serialize e @ concat (map serialize es)" by simp
  have buf2: "?buf = (pre @ serialize e) @ concat (map serialize es)" by simp
  have ne: "\<not> eof \<lparr>reader_buffer = ?buf, reader_pos = length pre\<rparr>"
    using serialize_nonempty[OF le] by (simp add: eof_def)
  have rd: "read_event \<lparr>reader_buffer = ?buf, reader_pos = length pre\<rparr>
              = Inr (e, \<lparr>reader_buffer = ?buf, reader_pos = length (pre @ serialize e)\<rparr>)"
    unfolding buf1 using read_event_at[OF le, of pre "concat (map serialize es)"] by simp
  have "process_events \<lparr>reader_buffer = ?buf, reader_pos = length pre\<rparr> out
          = process_events \<lparr>reader_buffer = ?buf, reader_pos = length (pre @ serialize e)\<rparr>
              (out @ [e])"
    by (subst process_events.simps) (simp only: ne rd if_False sum.case prod.case)
  also have "\<dots> = Inr ((out @ [e]) @ es)"
    unfolding buf2 using Cons.prems by (intro Cons.IH) simp
  finally show ?case by simp
qed

definition sample_event :: Event where
  "sample_event = \<lparr>timestamp = 1000000, tid = 4242, type = CondWaitDone,
                     ptr1 = 0x7FFD1000, ptr2 = 0x7FFD2000, result = - 1,
                     duration_ns = 500, stack = [0x401000, 0x402000]\<rparr>"

text \<open>
  C1. Record round-trip: for every record whose stack has at most 16 frames, whatever the
  logger's scratch buffer held before and wherever in a file the bytes stand, the reader's
  loop body applied to the bytes \<^verbatim>\<open>EventLogger::log\<close> builds gives back the record
  itself, every field and the stack included, and leaves the reader just behind them.
\<close>

theorem record_round_trip:
  "length (stack r) \<le> MAX_STACK_DEPTH \<Longrightarrow>
   read_event \<lparr>reader_buffer = pre @ serialize_into r w @ post, reader_pos = length pre\<rparr>
     = Inr (r, \<lparr>reader_buffer = pre @ serialize_into r w @ post,
                 reader_pos = length pre + length (serialize_into r w)\<rparr>)"
  using read_event_at[of r pre post] by (simp add: serialize_into_writer)

theorem record_round_trip_witness:
  "length (stack sample_event) \<le> MAX_STACK_DEPTH
   \<and> read_event \<lparr>reader_buffer = [1, 2, 3] @ serialize_into sample_event [1, 2, 3] @ [4],
                  reader_pos = length [1, 2, 3 :: u8]\<rparr>
       = Inr (sample_event,
              \<lparr>reader_buffer = [1, 2, 3] @ serialize_into sample_event [1, 2, 3] @ [4],
               reader_pos = length [1, 2, 3 :: u8]
                  + length (serialize_into sample_event [1, 2, 3])\<rparr>)"
proof -
  have le: "length (stack sample_event) \<le> MAX_STACK_DEPTH"
    by (simp add: sample_event_def MAX_STACK_DEPTH_def)
  from le record_round_trip[OF le, of "[1, 2, 3]" "[1, 2, 3]" "[4]"] show ?thesis by simp
qed

subsection \<open>The result field on the wire\<close>

text \<open>
  Where the result field starts in the bytes of a record: behind the timestamp, the tid,
  the kind byte and the two pointers.
\<close>

definition result_offset :: "Event \<Rightarrow> nat" where
  "result_offset e =
     length (encodeVarInt (timestamp e) []) + length (encodeVarInt (ucast (tid e)) []) + 1
       + length (encodeVarInt (ptr1 e) []) + length (encodeVarInt (ptr2 e) [])"

lemma varint_minus_one:
  "varint (- 1) = [0xFF, 0xFF, 0xFF, 0xFF, 0xFF, 0xFF, 0xFF, 0xFF, 0xFF, 0x01]"
  unfolding varint_def by code_simp

text \<open>
  C5. Signed result encoding, in the bytes \<^verbatim>\<open>EventLogger::log\<close> builds for a record with
  at most 16 frames: the varint that stands at the result field holds the \<^verbatim>\<open>int32_t\<close>
  result sign-extended to 64 bits; the reader's loop body, which narrows that varint to
  \<^verbatim>\<open>int32_t\<close>, gives the result back; and a result of -1 occupies exactly ten bytes, nine
  of \<^verbatim>\<open>0xFF\<close> and a last one of \<^verbatim>\<open>0x01\<close>.
\<close>

theorem signed_result_on_the_wire:
  "length (stack e) \<le> MAX_STACK_DEPTH \<Longrightarrow>
   fst (readVarInt \<lparr>reader_buffer = serialize_into e w, reader_pos = result_offset e\<rparr>)
     = scast (result e)
   \<and> (\<exists>e' rd. read_event \<lparr>reader_buffer = serialize_into e w, reader_pos = 0\<rparr> = Inr (e', rd)
              \<and> result e' = result e)
   \<and> (result e = - 1 \<longrightarrow>
        take 10 (drop (result_offset e) (serialize_into e w))
          = [0xFF, 0xFF, 0xFF, 0xFF, 0xFF, 0xFF, 0xFF, 0xFF, 0xFF, 0x01]
        \<and> reader_pos (snd (readVarInt \<lparr>reader_buffer = serialize_into e w,
                                          reader_pos = result_offset e\<rparr>))
            = result_offset e + 10)"
proof -
  assume le: "length (stack e) \<le> MAX_STACK_DEPTH"
  define P where "P = varint (timestamp e) @ varint (ucast (tid e)) @ [type e]
                        @ varint (ptr1 e) @ varint (ptr2 e)"
  define Q where "Q = varint (duration_ns e) @ varint (of_nat (length (stack e)))
                        @ concat (map varint (stack e))"
  have ser: "serialize_into e w = P @ varint (scast (result e)) @ Q"
    unfolding serialize_into_eq[OF le] P_def Q_def by simp
  have off: "result_offset e = length P"
    by (simp add: result_offset_def P_def varint_def)
  have rd: "readVarInt \<lparr>reader_buffer = serialize_into e w, reader_pos = result_offset e\<rparr>
              = (scast (result e),
                 \<lparr>reader_buffer = serialize_into e w,
                  reader_pos = result_offset e + length (varint (scast (result e)))\<rparr>)"
    unfolding ser off by (rule readVarInt_at)
  have one: "fst (readVarInt \<lparr>reader_buffer = serialize_into e w, reader_pos = result_offset e\<rparr>)
     = scast (result e)"
    by (simp add: rd)
  have two: "\<exists>e' rd. read_event \<lparr>reader_buffer = serialize_into e w, reader_pos = 0\<rparr> = Inr (e', rd)
              \<and> result e' = result e"
    using read_event_at[OF le, of "[]" "[]"] by (simp add: serialize_into_writer[OF le])
  have three: "take 10 (drop (result_offset e) (serialize_into e w))
          = [0xFF, 0xFF, 0xFF, 0xFF, 0xFF, 0xFF, 0xFF, 0xFF, 0xFF, 0x01]
        \<and> reader_pos (snd (readVarInt \<lparr>reader_buffer = serialize_into e w,
                                          reader_pos = result_offset e\<rparr>))
            = result_offset e + 10" if m: "result e = - 1"
  proof -
    have sc: "(scast (result e) :: u64) = - 1" unfolding m by simp
    show ?thesis
      unfolding rd unfolding ser off sc varint_minus_one by simp
  qed
  from one two three show ?thesis by blast
qed

theorem signed_result_on_the_wire_witness:
  "length (stack sample_event) \<le> MAX_STACK_DEPTH
   \<and> result sample_event = - 1
   \<and> fst (readVarInt \<lparr>reader_buffer = serialize_into sample_event [1, 2, 3],
                       reader_pos = result_offset sample_event\<rparr>)
       = 0xFFFFFFFFFFFFFFFF
   \<and> take 10 (drop (result_offset sample_event) (serialize_into sample_event [1, 2, 3]))
       = [0xFF, 0xFF, 0xFF, 0xFF, 0xFF, 0xFF, 0xFF, 0xFF, 0xFF, 0x01]
   \<and> reader_pos (snd (readVarInt \<lparr>reader_buffer = serialize_into sample_event [1, 2, 3],
                                     reader_pos = result_offset sample_event\<rparr>))
       = result_offset sample_event + 10"
proof -
  have le: "length (stack sample_event) \<le> MAX_STACK_DEPTH"
    by (simp add: sample_event_def MAX_STACK_DEPTH_def)
  have r: "result sample_event = - 1" by (simp add: sample_event_def)
  from signed_result_on_the_wire[OF le, of "[1, 2, 3]"] le r show ?thesis by simp
qed

subsection \<open>Truncated traces\<close>

lemma readVarInt_at_end:
  "length (reader_buffer rd) \<le> reader_pos rd \<Longrightarrow> readVarInt rd = (0, rd)"
  by (simp add: readVarInt_def readVarInt_loop_eof)

lemma readStack_at_end:
  "length (reader_buffer rd) \<le> reader_pos rd \<Longrightarrow> readStack rd = ([], rd)"
  unfolding readStack_def
  by (simp add: readVarInt_at_end) (subst readStack_loop.simps, simp)

definition cut_event :: Event where
  "cut_event = \<lparr>timestamp = 1, tid = 2, type = MutexLock, ptr1 = 0, ptr2 = 0,
                  result = 0, duration_ns = 0, stack = []\<rparr>"

lemma reader_main_cut: "reader_main [1, 2, 3] = Inr ([cut_event], 0)"
proof -
  let ?buf = "[1, 2, 3] :: u8 list"
  have v1: "varint 1 = [1]" and v2: "varint 2 = [2]"
    by (simp_all add: varint_small)
  have r1: "readVarInt \<lparr>reader_buffer = ?buf, reader_pos = 0\<rparr>
              = (1, \<lparr>reader_buffer = ?buf, reader_pos = 1\<rparr>)"
    using readVarInt_at[of "[]" 1 "[2, 3]"] by (simp add: v1)
  have r2: "readVarInt \<lparr>reader_buffer = ?buf, reader_pos = 1\<rparr>
              = (2, \<lparr>reader_buffer = ?buf, reader_pos = 2\<rparr>)"
    using readVarInt_at[of "[1]" 2 "[3]"] by (simp add: v2)
  have r3: "readEventType \<lparr>reader_buffer = ?buf, reader_pos = 2\<rparr>
              = Inr (3, \<lparr>reader_buffer = ?buf, reader_pos = 3\<rparr>)"
    by (simp add: readEventType_def)
  have r4: "readVarInt \<lparr>reader_buffer = ?buf, reader_pos = 3\<rparr>
              = (0, \<lparr>reader_buffer = ?buf, reader_pos = 3\<rparr>)"
    by (rule readVarInt_at_end) simp
  have r8: "readStack \<lparr>reader_buffer = ?buf, reader_pos = 3\<rparr>
              = ([], \<lparr>reader_buffer = ?buf, reader_pos = 3\<rparr>)"
    by (rule readStack_at_end) simp
  have ev: "read_event \<lparr>reader_buffer = ?buf, reader_pos = 0\<rparr>
              = Inr (cut_event, \<lparr>reader_buffer = ?buf, reader_pos = 3\<rparr>)"
    using read_event_unfold[OF r1 r2 r3 r4 r4 r4 r4 r8]
    by (simp add: cut_event_def MutexLock_def)
  have "process_events \<lparr>reader_buffer = ?buf, reader_pos = 0\<rparr> []
          = process_events \<lparr>reader_buffer = ?buf, reader_pos = 3\<rparr> ([] @ [cut_event])"
    by (subst process_events.simps) (simp add: eof_def ev)
  also have "\<dots> = Inr [cut_event]"
    by (subst process_events.simps) (simp add: eof_def)
  finally show ?thesis by (simp add: reader_main_def)
qed

text \<open>
  A cut at or before the kind byte makes \<^verbatim>\<open>readEventType\<close> index past the end of the
  buffer.
\<close>

lemma reader_main_cut_before_kind: "reader_main [1, 2] = Inl OutOfBounds"
proof -
  let ?buf = "[1, 2] :: u8 list"
  have v1: "varint 1 = [1]" and v2: "varint 2 = [2]"
    by (simp_all add: varint_small)
  have r1: "readVarInt \<lparr>reader_buffer = ?buf, reader_pos = 0\<rparr>
              = (1, \<lparr>reader_buffer = ?buf, reader_pos = 1\<rparr>)"
    using readVarInt_at[of "[]" 1 "[2]"] by (simp add: v1)
  have r2: "readVarInt \<lparr>reader_buffer = ?buf, reader_pos = 1\<rparr>
              = (2, \<lparr>reader_buffer = ?buf, reader_pos = 2\<rparr>)"
    using readVarInt_at[of "[1]" 2 "[]"] by (simp add: v2)
  have r3: "readEventType \<lparr>reader_buffer = ?buf, reader_pos = 2\<rparr> = Inl OutOfBounds"
    by (simp add: readEventType_def)
  have "process_events \<lparr>reader_buffer = ?buf, reader_pos = 0\<rparr> [] = Inl OutOfBounds"
    by (subst process_events.simps) (simp add: eof_def read_event_oob[OF r1 r2 r3])
  then show ?thesis by (simp add: reader_main_def)
qed

subsection \<open>A varint cut off by the end of the buffer\<close>

lemma split7_mask:
  "push_bit s ((v::u64) AND 0x7F) OR push_bit (s + 7) (drop_bit 7 v AND mask (7 * k))
     = push_bit s (v AND mask (7 * Suc k))"
proof -
  let ?w = "v AND mask (7 * Suc k)"
  have lo: "?w AND 0x7F = v AND 0x7F"
    unfolding x7F_mask by (rule bit_word_eqI) (auto simp: bit_simps)
  have hi: "drop_bit 7 ?w = drop_bit 7 v AND mask (7 * k)"
    by (rule bit_word_eqI) (auto simp: bit_simps dest: bit_imp_le_length)
  from split7[of s ?w] show ?thesis unfolding lo hi .
qed

lemma readVarInt_loop_truncated:
  "k < length (varint v) \<Longrightarrow>
   readVarInt_loop (pre @ take k (varint v)) (length pre) res shift
     = (res OR push_bit shift (v AND mask (7 * k)), length pre + k)"
proof (induction k arbitrary: v pre res shift)
  case 0
  then show ?case by (simp add: readVarInt_loop_eof)
next
  case (Suc k)
  have nz: "drop_bit 7 v \<noteq> 0"
  proof
    assume "drop_bit 7 v = 0"
    from varint_last[OF this] Suc.prems show False by simp
  qed
  let ?b = "(ucast (v AND 0x7F) OR 0x80) :: u8"
  let ?v' = "drop_bit 7 v"
  have enc: "varint v = ?b # varint ?v'" using nz by (rule varint_more)
  have k: "k < length (varint ?v')" using Suc.prems by (simp add: enc)
  let ?buf = "pre @ ?b # take k (varint ?v')"
  have at: "?buf ! length pre = ?b" by (simp add: nth_append)
  have buf2: "?buf = (pre @ [?b]) @ take k (varint ?v')" by simp
  have "readVarInt_loop ?buf (length pre) res shift
          = readVarInt_loop ?buf (length pre + 1)
              (res OR push_bit shift (ucast (?b AND 0x7F))) (shift + 7)"
    by (rule readVarInt_loop_cont[where buf = ?buf and pos = "length pre", unfolded at])
       (simp_all add: cont_flag)
  also have "\<dots> = readVarInt_loop ((pre @ [?b]) @ take k (varint ?v')) (length (pre @ [?b]))
                      (res OR push_bit shift (v AND 0x7F)) (shift + 7)"
    by (simp add: low7_cont)
  also have "\<dots> = ((res OR push_bit shift (v AND 0x7F))
                       OR push_bit (shift + 7) (?v' AND mask (7 * k)),
                     length (pre @ [?b]) + k)"
    by (rule Suc.IH[OF k])
  finally have main:
    "readVarInt_loop ?buf (length pre) res shift
       = ((res OR push_bit shift (v AND 0x7F)) OR push_bit (shift + 7) (?v' AND mask (7 * k)),
          length (pre @ [?b]) + k)" .
  have fin: "(res OR push_bit shift (v AND 0x7F)) OR push_bit (shift + 7) (?v' AND mask (7 * k))
               = res OR push_bit shift (v AND mask (7 * Suc k))"
    by (simp only: or.assoc split7_mask)
  have tk: "take (Suc k) (varint v) = ?b # take k (varint ?v')" by (simp add: enc)
  show ?case unfolding tk main fin by simp
qed

subsection \<open>Cuts inside a record\<close>

text \<open>
  A run of \<open>n\<close> calls of \<^verbatim>\<open>readVarInt\<close>, the shape of everything the loop body reads after
  the kind byte: four scalar fields, the stack depth and the frames.
\<close>

primrec read_many :: "nat \<Rightarrow> VarIntReader \<Rightarrow> u64 list \<times> VarIntReader" where
  "read_many 0 rd = ([], rd)"
| "read_many (Suc n) rd =
     (case readVarInt rd of (v, rd') \<Rightarrow>
      case read_many n rd' of (vs, rd'') \<Rightarrow> (v # vs, rd''))"

text \<open>The bytes of a record before its first pointer: timestamp, tid and kind.\<close>

definition header_length :: "Event \<Rightarrow> nat" where
  "header_length e = length (varint (timestamp e)) + length (varint (ucast (tid e))) + 1"

text \<open>
  What the amended claim C4 says a cut record reads as. \<open>cut_values m vs\<close> are the values
  of the varint fields \<open>vs\<close> when only the first \<open>m\<close> bytes of their encodings are there:
  a field whose bytes are all present is itself, the field the cut falls in keeps the low
  \<open>7 * k\<close> bits of its value when \<open>k\<close> of its bytes are present, and every field behind it
  is 0. \<open>cut_record e m\<close> is the record \<open>e\<close> cut \<open>m\<close> bytes from its start, at or behind its
  kind byte: timestamp, tid and kind as written, the other scalars by \<open>cut_values\<close>, and as
  many frames as the depth that was read says. Both follow the words of the claim, not the
  source; the theorem below compares them with the reader.
\<close>

fun cut_values :: "nat \<Rightarrow> u64 list \<Rightarrow> u64 list" where
  "cut_values m [] = []"
| "cut_values m (v # vs) =
     (if length (varint v) \<le> m
      then v # cut_values (m - length (varint v)) vs
      else (v AND mask (7 * m)) # replicate (length vs) 0)"

definition cut_record :: "Event \<Rightarrow> nat \<Rightarrow> Event" where
  "cut_record e m =
     (let vs = cut_values (m - header_length e)
                 ([ptr1 e, ptr2 e, scast (result e), duration_ns e, of_nat (length (stack e))]
                    @ stack e)
      in \<lparr>timestamp = timestamp e, tid = tid e, type = type e,
          ptr1 = vs ! 0, ptr2 = vs ! 1, result = ucast (vs ! 2), duration_ns = vs ! 3,
          stack = take (unat (ucast (vs ! 4) :: u32)) (drop 5 vs)\<rparr>)"

lemma length_cut_values [simp]: "length (cut_values m xs) = length xs"
  by (induction xs arbitrary: m) simp_all

lemma cut_values_append_ge:
  "length (concat (map varint xs)) \<le> m \<Longrightarrow>
   cut_values m (xs @ ys) = xs @ cut_values (m - length (concat (map varint xs))) ys"
  by (induction xs arbitrary: m) simp_all

lemma cut_values_append_lt:
  "m < length (concat (map varint xs)) \<Longrightarrow>
   cut_values m (xs @ ys) = cut_values m xs @ replicate (length ys) 0"
  by (induction xs arbitrary: m) (auto simp: replicate_add)

lemma cut_values_all:
  "length (concat (map varint xs)) \<le> m \<Longrightarrow> cut_values m xs = xs"
  using cut_values_append_ge[of xs m "[]"] by simp

lemma cut_values_last_zero:
  "m < length (concat (map varint (xs @ [x]))) \<Longrightarrow> length (varint x) = 1 \<Longrightarrow>
   cut_values m (xs @ [x]) ! length xs = 0"
proof (induction xs arbitrary: m)
  case Nil
  then show ?case by simp
next
  case (Cons y ys)
  show ?case
  proof (cases "length (varint y) \<le> m")
    case True
    have "m - length (varint y) < length (concat (map varint (ys @ [x])))"
      using Cons.prems(1) True by simp
    from Cons.IH[OF this Cons.prems(2)] True show ?thesis by simp
  next
    case False
    then show ?thesis by (simp add: nth_Cons')
  qed
qed

declare cut_values.simps [simp del]

subsection \<open>What the reader makes of a cut record\<close>

lemma read_many_at_end:
  "length (reader_buffer rd) \<le> reader_pos rd \<Longrightarrow> read_many n rd = (replicate n 0, rd)"
  by (induction n) (simp_all add: readVarInt_at_end)

lemma readVarInt_cut:
  "k < length (varint v) \<Longrightarrow>
   readVarInt \<lparr>reader_buffer = pre @ take k (varint v), reader_pos = length pre\<rparr>
     = (v AND mask (7 * k), \<lparr>reader_buffer = pre @ take k (varint v), reader_pos = length pre + k\<rparr>)"
  using readVarInt_loop_truncated[of k v pre 0 0] by (simp add: readVarInt_def)

lemma read_many_complete:
  "read_many (length xs)
       \<lparr>reader_buffer = pre @ concat (map varint xs) @ post, reader_pos = length pre\<rparr>
     = (xs, \<lparr>reader_buffer = pre @ concat (map varint xs) @ post,
              reader_pos = length pre + length (concat (map varint xs))\<rparr>)"
proof (induction xs arbitrary: pre)
  case Nil
  show ?case by simp
next
  case (Cons x xs)
  let ?buf = "pre @ concat (map varint (x # xs)) @ post"
  have buf1: "?buf = pre @ varint x @ (concat (map varint xs) @ post)" by simp
  have buf2: "?buf = (pre @ varint x) @ concat (map varint xs) @ post" by simp
  have r: "readVarInt \<lparr>reader_buffer = ?buf, reader_pos = length pre\<rparr>
             = (x, \<lparr>reader_buffer = ?buf, reader_pos = length (pre @ varint x)\<rparr>)"
    unfolding buf1 using readVarInt_at[of pre x "concat (map varint xs) @ post"] by simp
  have ih: "read_many (length xs) \<lparr>reader_buffer = ?buf, reader_pos = length (pre @ varint x)\<rparr>
              = (xs, \<lparr>reader_buffer = ?buf,
                       reader_pos = length (pre @ varint x) + length (concat (map varint xs))\<rparr>)"
    unfolding buf2 by (rule Cons.IH)
  show ?case using r ih by simp
qed

lemma read_many_cut:
  "m \<le> length (concat (map varint xs)) \<Longrightarrow>
   read_many (length xs) \<lparr>reader_buffer = pre @ take m (concat (map varint xs)),
                           reader_pos = length pre\<rparr>
     = (cut_values m xs,
        \<lparr>reader_buffer = pre @ take m (concat (map varint xs)), reader_pos = length pre + m\<rparr>)"
proof (induction xs arbitrary: pre m)
  case Nil
  then show ?case by (simp add: cut_values.simps)
next
  case (Cons x xs)
  let ?R = "concat (map varint xs)"
  show ?case
  proof (cases "length (varint x) \<le> m")
    case True
    let ?m' = "m - length (varint x)"
    have tk: "take m (concat (map varint (x # xs))) = varint x @ take ?m' ?R"
      using True by simp
    let ?buf = "pre @ varint x @ take ?m' ?R"
    have r: "readVarInt \<lparr>reader_buffer = ?buf, reader_pos = length pre\<rparr>
               = (x, \<lparr>reader_buffer = ?buf, reader_pos = length (pre @ varint x)\<rparr>)"
      using readVarInt_at[of pre x "take ?m' ?R"] by simp
    have m': "?m' \<le> length ?R" using Cons.prems(1) True by simp
    have ih: "read_many (length xs) \<lparr>reader_buffer = (pre @ varint x) @ take ?m' ?R,
                                  reader_pos = length (pre @ varint x)\<rparr>
                = (cut_values ?m' xs, \<lparr>reader_buffer = (pre @ varint x) @ take ?m' ?R,
                   reader_pos = length (pre @ varint x) + ?m'\<rparr>)"
      by (rule Cons.IH[OF m'])
    have cv: "cut_values m (x # xs) = x # cut_values ?m' xs"
      using True by (simp add: cut_values.simps)
    have "read_many (length (x # xs)) \<lparr>reader_buffer = ?buf, reader_pos = length pre\<rparr>
            = (x # cut_values ?m' xs,
               \<lparr>reader_buffer = ?buf, reader_pos = length (pre @ varint x) + ?m'\<rparr>)"
      using ih by (simp add: r)
    then show ?thesis unfolding tk cv using True by simp
  next
    case False
    then have lt: "m < length (varint x)" by simp
    then have tk: "take m (concat (map varint (x # xs))) = take m (varint x)" by simp
    let ?buf = "pre @ take m (varint x)"
    have r: "readVarInt \<lparr>reader_buffer = ?buf, reader_pos = length pre\<rparr>
               = (x AND mask (7 * m), \<lparr>reader_buffer = ?buf, reader_pos = length pre + m\<rparr>)"
      by (rule readVarInt_cut[OF lt])
    have rest: "read_many (length xs) \<lparr>reader_buffer = ?buf, reader_pos = length pre + m\<rparr>
                  = (replicate (length xs) 0, \<lparr>reader_buffer = ?buf, reader_pos = length pre + m\<rparr>)"
      using lt by (intro read_many_at_end) simp
    have cv: "cut_values m (x # xs) = (x AND mask (7 * m)) # replicate (length xs) 0"
      using False by (simp add: cut_values.simps)
    show ?thesis unfolding tk cv by (simp add: r rest)
  qed
qed

lemma readStack_loop_read_many:
  "i \<le> depth \<Longrightarrow>
   readStack_loop i depth rd acc
     = (acc @ fst (read_many (depth - i) rd), snd (read_many (depth - i) rd))"
proof (induction "depth - i" arbitrary: i rd acc)
  case 0
  then show ?case by (subst readStack_loop.simps) simp
next
  case (Suc n)
  then have lt: "i < depth" and n: "n = depth - (i + 1)" and d: "depth - i = Suc n"
    by simp_all
  obtain p rd' where r: "readVarInt rd = (p, rd')" by (cases "readVarInt rd")
  have "readStack_loop i depth rd acc = readStack_loop (i + 1) depth rd' (acc @ [p])"
    using lt r by (subst readStack_loop.simps) (simp add: readPtr_def)
  also have "\<dots> = ((acc @ [p]) @ fst (read_many n rd'), snd (read_many n rd'))"
    using Suc.hyps(1)[OF n, of rd' "acc @ [p]"] lt n by simp
  also have "\<dots> = (acc @ fst (read_many (depth - i) rd), snd (read_many (depth - i) rd))"
    unfolding d by (simp add: r split: prod.splits)
  finally show ?case .
qed

lemma readStack_read_many:
  "readVarInt rd = (d, rd') \<Longrightarrow>
   readStack rd = read_many (unat (ucast d :: u32)) rd'"
  using readStack_loop_read_many[of 0 "unat (ucast d :: u32)" rd' "[]"]
  by (simp add: readStack_def)

lemma read_many_5:
  assumes "readVarInt rd3 = (p1, rd4)" and "readVarInt rd4 = (p2, rd5)"
    and "readVarInt rd5 = (rs, rd6)" and "readVarInt rd6 = (du, rd7)"
    and "readVarInt rd7 = (d, rd8)"
  shows "read_many 5 rd3 = ([p1, p2, rs, du, d], rd8)"
  using assms by (simp add: eval_nat_numeral)

text \<open>
  Decoding a record whose bytes stop somewhere behind the kind byte: the loop body still
  produces a record, the one \<open>cut_record\<close> describes, and leaves the reader at the end of the
  buffer.
\<close>

lemma read_event_cut:
  assumes le: "length (stack e) \<le> MAX_STACK_DEPTH"
    and lo: "header_length e \<le> m" and hi: "m \<le> length (serialize e)"
  shows "read_event \<lparr>reader_buffer = pre @ take m (serialize e), reader_pos = length pre\<rparr>
           = Inr (cut_record e m, \<lparr>reader_buffer = pre @ take m (serialize e),
                             reader_pos = length (pre @ take m (serialize e))\<rparr>)"
proof -
  define A where "A = varint (timestamp e)"
  define B where "B = varint (ucast (tid e))"
  define five where "five = [ptr1 e, ptr2 e, scast (result e), duration_ns e,
                             of_nat (length (stack e)) :: u64]"
  define R where "R = concat (map varint (five @ stack e))"
  define m' where "m' = m - header_length e"
  define P where "P = pre @ A @ B @ [type e]"
  define buf where "buf = pre @ take m (serialize e)"
  define cv where "cv = cut_values m' (five @ stack e)"
  have ser: "serialize e = A @ B @ [type e] @ R"
    unfolding serialize_def serialize_into_eq[OF le] A_def B_def R_def five_def by simp
  have hl: "header_length e = length (A @ B @ [type e])"
    by (simp add: header_length_def A_def B_def)
  have m'_le: "m' \<le> length R" using hi lo unfolding m'_def ser hl by simp
  have cut: "take m (X @ R) = X @ take (m - length X) R" if "length X \<le> m" for X :: "u8 list"
    using that by simp
  have "take m ((A @ B @ [type e]) @ R) = (A @ B @ [type e]) @ take m' R"
    unfolding m'_def hl by (rule cut) (use lo hl in simp)
  then have buf_eq: "buf = P @ take m' R"
    unfolding buf_def ser P_def by simp
  have b1: "buf = pre @ A @ (B @ [type e] @ take m' R)"
    and b2: "buf = (pre @ A) @ B @ ([type e] @ take m' R)"
    and b3: "buf = (pre @ A @ B) @ [type e] @ take m' R"
    unfolding buf_eq P_def by simp_all
  have r1: "readVarInt \<lparr>reader_buffer = buf, reader_pos = length pre\<rparr>
              = (timestamp e, \<lparr>reader_buffer = buf, reader_pos = length (pre @ A)\<rparr>)"
    unfolding b1 A_def using readVarInt_at[of pre "timestamp e"] by simp
  have r2: "readVarInt \<lparr>reader_buffer = buf, reader_pos = length (pre @ A)\<rparr>
              = (ucast (tid e), \<lparr>reader_buffer = buf, reader_pos = length (pre @ A @ B)\<rparr>)"
    unfolding b2 B_def using readVarInt_at[of "pre @ A" "ucast (tid e)"] by simp
  have r3: "readEventType \<lparr>reader_buffer = buf, reader_pos = length (pre @ A @ B)\<rparr>
              = Inr (type e, \<lparr>reader_buffer = buf, reader_pos = length P\<rparr>)"
    unfolding b3 P_def using readEventType_at[of "pre @ A @ B" "type e"] by simp
  let ?rd3 = "\<lparr>reader_buffer = buf, reader_pos = length P\<rparr>"
  let ?end = "\<lparr>reader_buffer = buf, reader_pos = length buf\<rparr>"
  obtain p1 rd4 where r4: "readVarInt ?rd3 = (p1, rd4)" by (cases "readVarInt ?rd3")
  obtain p2 rd5 where r5: "readVarInt rd4 = (p2, rd5)" by (cases "readVarInt rd4")
  obtain rs rd6 where r6: "readVarInt rd5 = (rs, rd6)" by (cases "readVarInt rd5")
  obtain du rd7 where r7: "readVarInt rd6 = (du, rd7)" by (cases "readVarInt rd6")
  obtain d rd8 where r8: "readVarInt rd7 = (d, rd8)" by (cases "readVarInt rd7")
  have many5: "read_many 5 ?rd3 = ([p1, p2, rs, du, d], rd8)"
    by (rule read_many_5[OF r4 r5 r6 r7 r8])
  have stk: "readStack rd7 = read_many (unat (ucast d :: u32)) rd8"
    by (rule readStack_read_many[OF r8])
  have len5: "length five = 5" by (simp add: five_def)
  have R_split: "R = concat (map varint five) @ concat (map varint (stack e))"
    by (simp add: R_def)
  have depth_byte: "length (varint (of_nat (length (stack e)))) = 1"
    using le by (simp add: varint_small MAX_STACK_DEPTH_def word_less_nat_alt unat_of_nat)
  have fin: "[p1, p2, rs, du, d] = take 5 cv
             \<and> readStack rd7 = (take (unat (ucast (cv ! 4) :: u32)) (drop 5 cv), ?end)"
  proof (cases "m' < length (concat (map varint five))")
    case True
    then have tk: "take m' R = take m' (concat (map varint five))"
      unfolding R_split by simp
    have "read_many (length five) \<lparr>reader_buffer = P @ take m' (concat (map varint five)),
                            reader_pos = length P\<rparr>
            = (cut_values m' five,
               \<lparr>reader_buffer = P @ take m' (concat (map varint five)), reader_pos = length P + m'\<rparr>)"
      using True by (intro read_many_cut) simp
    then have got: "[p1, p2, rs, du, d] = cut_values m' five"
      and rd8: "rd8 = ?end"
      using many5 m'_le True unfolding buf_eq tk len5 by simp_all
    have cv5: "cv = cut_values m' five @ replicate (length (stack e)) 0"
      unfolding cv_def by (rule cut_values_append_lt[OF True])
    have t5: "take 5 cv = cut_values m' five" unfolding cv5 by (simp add: len5)
    have z: "cut_values m' five ! 4 = 0"
      using cut_values_last_zero[of m' "[ptr1 e, ptr2 e, scast (result e), duration_ns e]"
              "of_nat (length (stack e))"] True depth_byte
      unfolding five_def by (simp add: eval_nat_numeral)
    have "[p1, p2, rs, du, d] ! 4 = d" by simp
    then have d0: "d = 0" unfolding got z by simp
    have cv4: "cv ! 4 = 0" unfolding cv5 using z by (simp add: nth_append len5)
    have a: "[p1, p2, rs, du, d] = take 5 cv" using got t5 by simp
    have b: "readStack rd7 = (take (unat (ucast (cv ! 4) :: u32)) (drop 5 cv), ?end)"
      unfolding stk rd8 d0 cv4 by simp
    from a b show ?thesis by simp
  next
    case False
    let ?m'' = "m' - length (concat (map varint five))"
    have tk: "take m' R = concat (map varint five) @ take ?m'' (concat (map varint (stack e)))"
      unfolding R_split using False by simp
    have m'': "?m'' \<le> length (concat (map varint (stack e)))"
      using m'_le unfolding R_split by simp
    have "read_many (length five)
            \<lparr>reader_buffer = P @ concat (map varint five) @ take ?m'' (concat (map varint (stack e))),
             reader_pos = length P\<rparr>
          = (five, \<lparr>reader_buffer = P @ concat (map varint five)
                                    @ take ?m'' (concat (map varint (stack e))),
                    reader_pos = length P + length (concat (map varint five))\<rparr>)"
      by (rule read_many_complete)
    then have got: "[p1, p2, rs, du, d] = five"
      and rd8: "rd8 = \<lparr>reader_buffer = buf, reader_pos = length (P @ concat (map varint five))\<rparr>"
      using many5 unfolding buf_eq tk len5 by simp_all
    from got have d: "d = of_nat (length (stack e))" by (simp add: five_def)
    have depth: "unat (ucast d :: u32) = length (stack e)"
      unfolding d using le
      by (simp add: MAX_STACK_DEPTH_def unat_of_nat unsigned_of_nat take_bit_nat_eq_self)
    have cv5: "cv = five @ cut_values ?m'' (stack e)"
      unfolding cv_def using False by (intro cut_values_append_ge) simp
    have cv4: "cv ! 4 = d" unfolding cv5 d by (simp add: five_def)
    have frames: "read_many (length (stack e))
                 \<lparr>reader_buffer = (P @ concat (map varint five))
                                   @ take ?m'' (concat (map varint (stack e))),
                  reader_pos = length (P @ concat (map varint five))\<rparr>
            = (cut_values ?m'' (stack e), \<lparr>reader_buffer = (P @ concat (map varint five))
                                 @ take ?m'' (concat (map varint (stack e))),
               reader_pos = length (P @ concat (map varint five)) + ?m''\<rparr>)"
      using m'' by (intro read_many_cut)
    have "readStack rd7 = (cut_values ?m'' (stack e), ?end)"
      unfolding stk rd8 depth using frames m'' unfolding buf_eq tk by simp
    moreover have "take (unat (ucast (cv ! 4) :: u32)) (drop 5 cv) = cut_values ?m'' (stack e)"
      unfolding cv4 depth unfolding cv5 by (simp add: len5)
    moreover have "take 5 cv = five" unfolding cv5 by (simp add: len5)
    ultimately show ?thesis using got by simp
  qed
  then have vals: "[p1, p2, rs, du, d] = take 5 cv"
    and r9: "readStack rd7 = (take (unat (ucast (cv ! 4) :: u32)) (drop 5 cv), ?end)"
    by simp_all
  have p: "p1 = cv ! 0" "p2 = cv ! 1" "rs = cv ! 2" "du = cv ! 3"
    using arg_cong[OF vals, where f = "\<lambda>xs. xs ! 0"] arg_cong[OF vals, where f = "\<lambda>xs. xs ! 1"]
      arg_cong[OF vals, where f = "\<lambda>xs. xs ! 2"] arg_cong[OF vals, where f = "\<lambda>xs. xs ! 3"]
    by simp_all
  have narrow_tid: "(ucast (ucast (tid e) :: u64) :: u32) = tid e"
    by (rule bit_word_eqI) (auto simp: bit_simps)
  have rec: "cut_record e m = \<lparr>timestamp = timestamp e, tid = tid e, type = type e, ptr1 = cv ! 0,
                  ptr2 = cv ! 1, result = ucast (cv ! 2), duration_ns = cv ! 3,
                  stack = take (unat (ucast (cv ! 4) :: u32)) (drop 5 cv)\<rparr>"
    unfolding cut_record_def Let_def cv_def m'_def five_def by simp
  from read_event_unfold[OF r1 r2 r3 r4 r5 r6 r7 r9]
  have "read_event \<lparr>reader_buffer = buf, reader_pos = length pre\<rparr>
          = Inr (cut_record e m, ?end)"
    unfolding narrow_tid rec p .
  then show ?thesis unfolding buf_def .
qed

lemma cut_record_complete:
  "length (stack e) \<le> MAX_STACK_DEPTH \<Longrightarrow> cut_record e (length (serialize e)) = e"
proof -
  assume le: "length (stack e) \<le> MAX_STACK_DEPTH"
  let ?five = "[ptr1 e, ptr2 e, scast (result e), duration_ns e, of_nat (length (stack e)) :: u64]"
  have len: "length (serialize e) - header_length e = length (concat (map varint (?five @ stack e)))"
    unfolding serialize_def serialize_into_eq[OF le] header_length_def by simp
  have cv: "cut_values (length (serialize e) - header_length e) (?five @ stack e) = ?five @ stack e"
    unfolding len by (rule cut_values_all) simp
  have narrow_res: "(ucast (scast (result e) :: u64) :: i32) = result e"
    by (rule bit_word_eqI) (auto simp: bit_simps)
  have d: "unat (ucast (of_nat (length (stack e)) :: u64) :: u32) = length (stack e)"
    using le by (simp add: MAX_STACK_DEPTH_def unat_of_nat unsigned_of_nat take_bit_nat_eq_self)
  show ?thesis
    unfolding cut_record_def Let_def cv by (simp add: narrow_res d)
qed

lemma cut_record_example: "cut_record example_event 3 = cut_event"
  unfolding cut_record_def Let_def header_length_def
  by (simp add: example_event_def cut_event_def varint_small cut_values.simps)

definition cut_sample :: Event where
  "cut_sample = \<lparr>timestamp = 1000000, tid = 4242, type = CondWaitDone,
                   ptr1 = 0x1000, ptr2 = 0, result = 0, duration_ns = 0, stack = []\<rparr>"

lemma varint_sample:
  "varint 1000000 = [0xC0, 0x84, 0x3D]" "varint 4242 = [0x92, 0x21]"
  "varint 0x7FFD1000 = [0x80, 0xA0, 0xF4, 0xFF, 0x07]"
  unfolding varint_def by code_simp+

lemma cut_record_sample: "cut_record sample_event 8 = cut_sample"
proof -
  have m: "(0x7FFD1000 :: u64) AND mask 14 = 0x1000" by (simp add: mask_eq_decr_exp)
  have u: "(ucast (4242 :: u32) :: u64) = 4242" by simp
  show ?thesis
    unfolding cut_record_def Let_def header_length_def
    by (simp add: sample_event_def cut_sample_def varint_sample u cut_values.simps m)
qed

lemma header_length_pos: "0 < header_length e"
  by (simp add: header_length_def)

lemma process_events_skip:
  assumes "\<forall>e \<in> set es. length (stack e) \<le> MAX_STACK_DEPTH"
  shows "process_events
           \<lparr>reader_buffer = pre @ concat (map serialize es) @ post, reader_pos = length pre\<rparr> out
         = process_events
             \<lparr>reader_buffer = pre @ concat (map serialize es) @ post,
              reader_pos = length pre + length (concat (map serialize es))\<rparr> (out @ es)"
  using assms
proof (induction es arbitrary: pre out)
  case Nil
  show ?case by simp
next
  case (Cons e es)
  let ?buf = "pre @ concat (map serialize (e # es)) @ post"
  have le: "length (stack e) \<le> MAX_STACK_DEPTH" using Cons.prems by simp
  have buf1: "?buf = pre @ serialize e @ (concat (map serialize es) @ post)" by simp
  have buf2: "?buf = (pre @ serialize e) @ concat (map serialize es) @ post" by simp
  have ne: "\<not> eof \<lparr>reader_buffer = ?buf, reader_pos = length pre\<rparr>"
    using serialize_nonempty[OF le] by (simp add: eof_def)
  have rd: "read_event \<lparr>reader_buffer = ?buf, reader_pos = length pre\<rparr>
              = Inr (e, \<lparr>reader_buffer = ?buf, reader_pos = length (pre @ serialize e)\<rparr>)"
    unfolding buf1 using read_event_at[OF le, of pre "concat (map serialize es) @ post"] by simp
  have "process_events \<lparr>reader_buffer = ?buf, reader_pos = length pre\<rparr> out
          = process_events \<lparr>reader_buffer = ?buf, reader_pos = length (pre @ serialize e)\<rparr>
              (out @ [e])"
    by (subst process_events.simps) (simp only: ne rd if_False sum.case prod.case)
  also have "\<dots> = process_events
                      \<lparr>reader_buffer = ?buf,
                       reader_pos = length (pre @ serialize e) + length (concat (map serialize es))\<rparr>
                      ((out @ [e]) @ es)"
    unfolding buf2 using Cons.prems by (intro Cons.IH) simp
  finally show ?case by (simp add: add.assoc)
qed

lemma reader_main_cut_inside:
  assumes wf: "\<forall>e \<in> set es. length (stack e) \<le> MAX_STACK_DEPTH"
    and le: "length (stack e) \<le> MAX_STACK_DEPTH"
    and lo: "header_length e \<le> m" and hi: "m \<le> length (serialize e)"
  shows "reader_main (concat (map serialize es) @ take m (serialize e))
           = Inr (es @ [cut_record e m], 0)"
proof -
  let ?pre = "concat (map serialize es)"
  let ?buf = "?pre @ take m (serialize e)"
  have rd: "read_event \<lparr>reader_buffer = ?buf, reader_pos = length ?pre\<rparr>
           = Inr (cut_record e m, \<lparr>reader_buffer = ?buf, reader_pos = length ?buf\<rparr>)"
    by (rule read_event_cut[OF le lo hi])
  have pos: "0 < m" using lo header_length_pos[of e] by simp
  then have ne: "\<not> eof \<lparr>reader_buffer = ?buf, reader_pos = length ?pre\<rparr>"
    using hi by (simp add: eof_def)
  have "process_events \<lparr>reader_buffer = ?buf, reader_pos = 0\<rparr> []
          = process_events \<lparr>reader_buffer = ?buf, reader_pos = length ?pre\<rparr> es"
    using process_events_skip[OF wf, of "[]" "take m (serialize e)" "[]"] by simp
  also have "\<dots> = process_events \<lparr>reader_buffer = ?buf, reader_pos = length ?buf\<rparr>
                      (es @ [cut_record e m])"
    by (subst process_events.simps) (simp only: ne rd if_False sum.case prod.case)
  also have "\<dots> = Inr (es @ [cut_record e m])"
    by (subst process_events.simps) (simp add: eof_def)
  finally show ?thesis
    by (simp add: reader_main_def)
qed

text \<open>
  C4 as stated fails. The trace of the one record \<open>example_event\<close> has eight bytes. Cut
  after three of them (timestamp, tid, kind), it does not decode to a prefix of the
  trace's events: the loop has no notion of an incomplete record, the missing varints
  read as 0 at the end of the buffer, and a record that was never written is printed.
\<close>

theorem truncation_counterexample:
  "reader_main (take 3 (serialize example_event)) = Inr ([cut_event], 0)
   \<and> reader_main (serialize example_event) = Inr ([example_event], 0)
   \<and> \<not> prefix [cut_event] [example_event]"
proof -
  have "reader_main (take 3 (serialize example_event)) = Inr ([cut_event], 0)"
    by (simp add: serialize_example reader_main_cut)
  moreover have "reader_main (serialize example_event) = Inr ([example_event], 0)"
    using process_events_at[of "[example_event]" "[]" "[]"]
    by (simp add: reader_main_def example_event_def MAX_STACK_DEPTH_def)
  moreover have "\<not> prefix [cut_event] [example_event]"
    by (simp add: cut_event_def example_event_def)
  ultimately show ?thesis by simp
qed

text \<open>
  C4, amended. For a valid trace, the concatenation of the serializations of records with
  at most 16 frames each: cut on a record boundary, behind the first \<open>j\<close> records, it
  decodes to exactly those \<open>j\<close> records; cut \<open>m\<close> bytes into the next record, at or behind
  the end of its kind byte, it decodes to those \<open>j\<close> records followed by exactly one more
  record, \<open>cut_record\<close> of the record that was cut: its timestamp, tid and kind as written,
  every later field whose bytes are all present as written, the field the cut falls in
  reduced to the low \<open>7 * k\<close> bits for its \<open>k\<close> bytes present, and every field behind it
  0, so that a missing depth gives an empty stack. In both cases the decoder returns 0.
\<close>

theorem truncated_trace_decoding:
  "(\<forall>e \<in> set es. length (stack e) \<le> MAX_STACK_DEPTH) \<Longrightarrow> j \<le> length es \<Longrightarrow>
   reader_main (take (length (concat (map serialize (take j es)))) (concat (map serialize es)))
     = Inr (take j es, 0)
   \<and> (j < length es \<and> header_length (es ! j) \<le> m \<and> m \<le> length (serialize (es ! j)) \<longrightarrow>
        reader_main (take (length (concat (map serialize (take j es))) + m)
                       (concat (map serialize es)))
          = Inr (take j es @ [cut_record (es ! j) m], 0))"
proof -
  assume wf: "\<forall>e \<in> set es. length (stack e) \<le> MAX_STACK_DEPTH" and j: "j \<le> length es"
  let ?pre = "concat (map serialize (take j es))"
  have wfj: "\<forall>e \<in> set (take j es). length (stack e) \<le> MAX_STACK_DEPTH"
    using wf by (meson in_set_takeD)
  have split: "concat (map serialize es) = ?pre @ concat (map serialize (drop j es))"
    by (metis append_take_drop_id concat_append map_append)
  have cut: "take (length ?pre) (concat (map serialize es)) = ?pre"
    by (subst split) simp
  have boundary: "reader_main (take (length ?pre) (concat (map serialize es))) = Inr (take j es, 0)"
    using process_events_at[OF wfj, of "[]" "[]"] unfolding cut by (simp add: reader_main_def)
  have inside: "reader_main (take (length ?pre + m) (concat (map serialize es)))
                = Inr (take j es @ [cut_record (es ! j) m], 0)"
    if lt: "j < length es" and lo: "header_length (es ! j) \<le> m"
      and hi: "m \<le> length (serialize (es ! j))"
  proof -
    have dr: "drop j es = es ! j # drop (Suc j) es"
      using lt by (simp add: Cons_nth_drop_Suc)
    have le: "length (stack (es ! j)) \<le> MAX_STACK_DEPTH"
      using wf lt by simp
    have "take (length ?pre + m) (concat (map serialize es))
            = ?pre @ take m (serialize (es ! j) @ concat (map serialize (drop (Suc j) es)))"
      by (subst split) (simp add: dr)
    also have "\<dots> = ?pre @ take m (serialize (es ! j))"
      using hi by simp
    finally show ?thesis
      using reader_main_cut_inside[OF wfj le lo hi] by simp
  qed
  from boundary inside show ?thesis by blast
qed

theorem truncated_trace_decoding_witness:
  "length (stack example_event) \<le> MAX_STACK_DEPTH
   \<and> length (stack sample_event) \<le> MAX_STACK_DEPTH
   \<and> (1::nat) < length [example_event, sample_event]
   \<and> header_length sample_event \<le> 8
   \<and> 8 \<le> length (serialize sample_event)
   \<and> reader_main (take (length (serialize example_event))
                     (serialize example_event @ serialize sample_event))
       = Inr ([example_event], 0)
   \<and> reader_main (take (length (serialize example_event) + 8)
                     (serialize example_event @ serialize sample_event))
       = Inr ([example_event, cut_sample], 0)"
proof -
  have s: "length (stack sample_event) \<le> MAX_STACK_DEPTH"
    and e: "length (stack example_event) \<le> MAX_STACK_DEPTH"
    by (simp_all add: sample_event_def example_event_def MAX_STACK_DEPTH_def)
  then have wf: "\<forall>e \<in> set [example_event, sample_event]. length (stack e) \<le> MAX_STACK_DEPTH"
    by simp
  have j: "(1::nat) \<le> length [example_event, sample_event]" by simp
  have u: "(ucast (4242 :: u32) :: u64) = 4242" by simp
  have lo: "header_length sample_event \<le> 8"
    by (simp add: header_length_def sample_event_def varint_sample u)
  have hi: "8 \<le> length (serialize sample_event)"
    unfolding serialize_def serialize_into_eq[OF s]
    by (simp add: sample_event_def varint_sample u)
  from truncated_trace_decoding[OF wf j, of 8] s e lo hi
  show ?thesis by (simp add: cut_record_sample)
qed

subsection \<open>Reading at the end of the buffer\<close>

text \<open>
  C9. \<^verbatim>\<open>readVarInt\<close> always returns: it leaves the buffer alone and stops at a position
  between where it started and the end of the buffer. Called at or past the end it returns
  0 and changes nothing. A varint cut after \<open>k\<close> of its bytes decodes, with no error
  value anywhere in the result, to the low \<open>7 * k\<close> bits of the value, which is also what
  the complete encoding of that smaller value decodes to.
\<close>

theorem readVarInt_total_and_silent:
  "reader_buffer (snd (readVarInt rd)) = reader_buffer rd
   \<and> reader_pos rd \<le> reader_pos (snd (readVarInt rd))
   \<and> reader_pos (snd (readVarInt rd)) \<le> max (reader_pos rd) (length (reader_buffer rd))
   \<and> (eof rd \<longrightarrow> readVarInt rd = (0, rd))
   \<and> (k < length (encodeVarInt v []) \<longrightarrow>
        readVarInt \<lparr>reader_buffer = take k (encodeVarInt v []), reader_pos = 0\<rparr>
          = (v AND mask (7 * k), \<lparr>reader_buffer = take k (encodeVarInt v []), reader_pos = k\<rparr>)
        \<and> fst (readVarInt \<lparr>reader_buffer = encodeVarInt (v AND mask (7 * k)) [], reader_pos = 0\<rparr>)
            = v AND mask (7 * k))"
proof -
  have "readVarInt \<lparr>reader_buffer = take k (encodeVarInt v []), reader_pos = 0\<rparr>
          = (v AND mask (7 * k), \<lparr>reader_buffer = take k (encodeVarInt v []), reader_pos = k\<rparr>)"
    if "k < length (encodeVarInt v [])"
    using readVarInt_loop_truncated[of k v "[]" 0 0] that
    by (simp add: readVarInt_def varint_def)
  moreover have "fst (readVarInt \<lparr>reader_buffer = encodeVarInt (v AND mask (7 * k)) [], reader_pos = 0\<rparr>)
            = v AND mask (7 * k)"
    by (simp add: varint_round_trip_aux)
  moreover have "eof rd \<longrightarrow> readVarInt rd = (0, rd)"
    by (simp add: eof_def readVarInt_at_end)
  ultimately show ?thesis
    using readVarInt_buffer[of rd] readVarInt_pos_le[of rd] readVarInt_pos_bound[of rd]
    by blast
qed

theorem readVarInt_total_and_silent_witness:
  "eof \<lparr>reader_buffer = [0x80, 0x80], reader_pos = 2\<rparr>
   \<and> readVarInt \<lparr>reader_buffer = [0x80, 0x80], reader_pos = 2\<rparr>
       = (0, \<lparr>reader_buffer = [0x80, 0x80], reader_pos = 2\<rparr>)
   \<and> (2::nat) < length (encodeVarInt 0x4000 [])
   \<and> readVarInt \<lparr>reader_buffer = take 2 (encodeVarInt 0x4000 []), reader_pos = 0\<rparr>
       = (0, \<lparr>reader_buffer = take 2 (encodeVarInt 0x4000 []), reader_pos = 2\<rparr>)
   \<and> fst (readVarInt \<lparr>reader_buffer = encodeVarInt 0 [], reader_pos = 0\<rparr>) = 0"
proof -
  have e: "eof \<lparr>reader_buffer = [0x80, 0x80], reader_pos = 2\<rparr>" by (simp add: eof_def)
  have enc: "encodeVarInt 0x4000 [] = [0x80, 0x80, 0x01]" by code_simp
  have k: "(2::nat) < length (encodeVarInt 0x4000 [])" by (simp add: enc)
  have m: "(0x4000 :: u64) AND mask 14 = 0" by (simp add: mask_eq_decr_exp)
  from readVarInt_total_and_silent[of "\<lparr>reader_buffer = [0x80, 0x80], reader_pos = 2\<rparr>" 2 "0x4000"]
    e k show ?thesis by (simp add: m)
qed

section \<open>The interposition shim\<close>

text \<open>
  The wrappers of \<^verbatim>\<open>src/skeletonkey.cpp\<close> are modelled for one thread, as functions on the
  state the thread sees. Everything outside the library (the thread library behind the
  \<^verbatim>\<open>real_\<close> pointers, the clock, the call stack) is a world \<open>'w\<close> behind a host interface.
  A real implementation takes its pointer-sized arguments and the world; it gives back its
  \<^verbatim>\<open>int\<close> result and the new world, or \<open>None\<close> when the call never comes back to the wrapper
  (a lock that is never granted, a thread that exits or crashes inside the call).
\<close>

type_synonym 'w real_fn = "u64 list \<Rightarrow> 'w \<Rightarrow> (i32 \<times> 'w) option"

text \<open>The 22 static function pointers, lines 197 to 219.\<close>

datatype real_ptr =
    real_pthread_mutex_init
  | real_pthread_mutex_destroy
  | real_pthread_mutex_lock
  | real_pthread_mutex_trylock
  | real_pthread_mutex_timedlock
  | real_pthread_mutex_unlock
  | real_pthread_cond_init
  | real_pthread_cond_destroy
  | real_pthread_cond_signal
  | real_pthread_cond_broadcast
  | real_pthread_cond_wait
  | real_pthread_cond_timedwait
  | real_pthread_create
  | real_pthread_rwlock_init
  | real_pthread_rwlock_destroy
  | real_pthread_rwlock_rdlock
  | real_pthread_rwlock_tryrdlock
  | real_pthread_rwlock_timedrdlock
  | real_pthread_rwlock_wrlock
  | real_pthread_rwlock_trywrlock
  | real_pthread_rwlock_timedwrlock
  | real_pthread_rwlock_unlock

text \<open>
  What the library asks of the platform: \<^verbatim>\<open>dlsym(RTLD_NEXT, name)\<close> and
  \<^verbatim>\<open>dlvsym(RTLD_NEXT, name, version)\<close> (\<open>None\<close> is the null pointer of a failed lookup),
  \<^verbatim>\<open>getenv\<close>, whether the trace file opens, the steady clock in nanoseconds,
  \<^verbatim>\<open>gettid\<close>, and the return addresses of the calling thread, innermost first.
\<close>

record 'w host =
  dlsym_next :: "string \<Rightarrow> 'w real_fn option"
  dlvsym_next :: "string \<Rightarrow> string \<Rightarrow> 'w real_fn option"
  getenv :: "string \<Rightarrow> string option"
  open_trunc :: "string \<Rightarrow> bool"
  steady_clock_now :: "'w \<Rightarrow> u64"
  gettid :: "'w \<Rightarrow> u32"
  call_stack :: "'w \<Rightarrow> u64 list"

text \<open>\<^verbatim>\<open>backtrace(buffer, size)\<close> stores at most \<^verbatim>\<open>size\<close> return addresses.\<close>

definition backtrace :: "'w host \<Rightarrow> 'w \<Rightarrow> nat \<Rightarrow> u64 list" where
  "backtrace h w n = take n (call_stack h w)"

text \<open>
  The state: the function pointers, the thread-local \<^verbatim>\<open>in_hook\<close>, the logger's
  \<^verbatim>\<open>initialized_\<close>, the bytes its stream \<^verbatim>\<open>log_\<close> has written (\<open>None\<close> when the stream
  is not open), its scratch \<^verbatim>\<open>writer_\<close>, and the world.
\<close>

record 'w shim =
  reals :: "real_ptr \<Rightarrow> 'w real_fn option"
  in_hook :: bool
  initialized :: bool
  log_file :: "u8 list option"
  writer :: "u8 list"
  world :: 'w

definition loaded_state :: "'w \<Rightarrow> 'w shim" where
  "loaded_state w = \<lparr>reals = (\<lambda>p. None), in_hook = False, initialized = False,
                      log_file = None, writer = [], world = w\<rparr>"

definition EventLogger_init :: "'w host \<Rightarrow> string \<Rightarrow> 'w shim \<Rightarrow> 'w shim" where
  "EventLogger_init h filename s =
     (if \<not> initialized s
      then s\<lparr>initialized := True,
             log_file := (if open_trunc h filename then Some [] else None)\<rparr>
      else s)"

text \<open>
  \<^verbatim>\<open>EventLogger::log\<close>. The writer mutex is not visible to a single thread. The depth passed
  to \<^verbatim>\<open>writeStack\<close> is the number of addresses \<^verbatim>\<open>backtrace\<close> stored.
\<close>

definition EventLogger_log ::
  "'w host \<Rightarrow> EventType \<Rightarrow> u64 \<Rightarrow> u64 \<Rightarrow> i32 \<Rightarrow> u64 \<Rightarrow> 'w shim \<Rightarrow> 'w shim" where
  "EventLogger_log h ty p1 p2 res dur s =
     (if \<not> initialized s then s
      else (let stk = backtrace h (world s) MAX_STACK_DEPTH;
                ts = steady_clock_now h (world s);
                td = gettid h (world s);
                w = serialize_into \<lparr>timestamp = ts, tid = td, type = ty, ptr1 = p1, ptr2 = p2,
                                     result = res, duration_ns = dur, stack = stk\<rparr> (writer s)
            in s\<lparr>writer := w, log_file := map_option (\<lambda>f. f @ w) (log_file s)\<rparr>))"

text \<open>
  \<^verbatim>\<open>init_skeleton_key\<close>: every pointer takes what the lookup returned, with no test for
  null, and the logger is initialised with the file name from the environment or the
  default.
\<close>

definition init_skeleton_key :: "'w host \<Rightarrow> 'w shim \<Rightarrow> 'w shim" where
  "init_skeleton_key h s =
     (let s = s\<lparr>reals := (reals s)
                (real_pthread_cond_init := dlvsym_next h ''pthread_cond_init'' ''GLIBC_2.3.2'',
                 real_pthread_cond_destroy := dlvsym_next h ''pthread_cond_destroy'' ''GLIBC_2.3.2'',
                 real_pthread_cond_signal := dlvsym_next h ''pthread_cond_signal'' ''GLIBC_2.3.2'',
                 real_pthread_cond_broadcast := dlvsym_next h ''pthread_cond_broadcast'' ''GLIBC_2.3.2'',
                 real_pthread_cond_wait := dlvsym_next h ''pthread_cond_wait'' ''GLIBC_2.3.2'',
                 real_pthread_cond_timedwait := dlvsym_next h ''pthread_cond_timedwait'' ''GLIBC_2.3.2'',
                 real_pthread_mutex_init := dlsym_next h ''pthread_mutex_init'',
                 real_pthread_mutex_destroy := dlsym_next h ''pthread_mutex_destroy'',
                 real_pthread_mutex_lock := dlsym_next h ''pthread_mutex_lock'',
                 real_pthread_mutex_trylock := dlsym_next h ''pthread_mutex_trylock'',
                 real_pthread_mutex_timedlock := dlsym_next h ''pthread_mutex_timedlock'',
                 real_pthread_mutex_unlock := dlsym_next h ''pthread_mutex_unlock'',
                 real_pthread_create := dlsym_next h ''pthread_create'',
                 real_pthread_rwlock_init := dlsym_next h ''pthread_rwlock_init'',
                 real_pthread_rwlock_destroy := dlsym_next h ''pthread_rwlock_destroy'',
                 real_pthread_rwlock_rdlock := dlsym_next h ''pthread_rwlock_rdlock'',
                 real_pthread_rwlock_tryrdlock := dlsym_next h ''pthread_rwlock_tryrdlock'',
                 real_pthread_rwlock_timedrdlock := dlsym_next h ''pthread_rwlock_timedrdlock'',
                 real_pthread_rwlock_wrlock := dlsym_next h ''pthread_rwlock_wrlock'',
                 real_pthread_rwlock_trywrlock := dlsym_next h ''pthread_rwlock_trywrlock'',
                 real_pthread_rwlock_timedwrlock := dlsym_next h ''pthread_rwlock_timedwrlock'',
                 real_pthread_rwlock_unlock := dlsym_next h ''pthread_rwlock_unlock'')\<rparr>
      in case getenv h ''SKELETON_KEYOUTPUT'' of
           Some filename \<Rightarrow> EventLogger_init h filename s
         | None \<Rightarrow> EventLogger_init h ''/tmp/skeleton_key.bin'' s)"

text \<open>
  How a call through one of the pointers ends: it returns a result, or the pointer is null
  (the wrappers call through it all the same, which C++ leaves undefined and which is a
  crash in practice), or the real implementation never returns.
\<close>

datatype outcome = Returned i32 | NullCall | NoReturn


definition call_real :: "real_ptr \<Rightarrow> u64 list \<Rightarrow> 'w shim \<Rightarrow> outcome \<times> 'w shim" where
  "call_real p args s =
     (case reals s p of
        None \<Rightarrow> (NullCall, s)
      | Some f \<Rightarrow> (case f args (world s) of
                     None \<Rightarrow> (NoReturn, s)
                   | Some (r, w') \<Rightarrow> (Returned r, s\<lparr>world := w'\<rparr>)))"

text \<open>
  The two bodies the 22 wrappers are written with. The first is that of
  \<^verbatim>\<open>pthread_mutex_init\<close>: guard, set the flag, call, log once, clear the flag. The second
  is that of \<^verbatim>\<open>pthread_mutex_lock\<close>: guard, set the flag, take the start time, log the
  pre-event, call, log the done-event with the elapsed nanoseconds, clear the flag.
\<close>

definition hook_single ::
  "'w host \<Rightarrow> real_ptr \<Rightarrow> EventType \<Rightarrow> u64 list \<Rightarrow> u64 \<Rightarrow> u64 \<Rightarrow> 'w shim \<Rightarrow> outcome \<times> 'w shim" where
  "hook_single h p ty args a1 a2 s =
     (if in_hook s then call_real p args s
      else (case call_real p args (s\<lparr>in_hook := True\<rparr>) of
              (Returned r, s1) \<Rightarrow>
                (Returned r, (EventLogger_log h ty a1 a2 r 0 s1)\<lparr>in_hook := False\<rparr>)
            | (NullCall, s1) \<Rightarrow> (NullCall, s1)
            | (NoReturn, s1) \<Rightarrow> (NoReturn, s1)))"

definition hook_timed ::
  "'w host \<Rightarrow> real_ptr \<Rightarrow> EventType \<Rightarrow> EventType \<Rightarrow> u64 list \<Rightarrow> u64 \<Rightarrow> u64 \<Rightarrow> 'w shim
     \<Rightarrow> outcome \<times> 'w shim" where
  "hook_timed h p ty_pre ty_done args a1 a2 s =
     (if in_hook s then call_real p args s
      else (let s1 = s\<lparr>in_hook := True\<rparr>;
                start = steady_clock_now h (world s1);
                s2 = EventLogger_log h ty_pre a1 a2 0 0 s1
            in case call_real p args s2 of
                 (Returned r, s3) \<Rightarrow>
                   (let duration = steady_clock_now h (world s3) - start;
                        s4 = EventLogger_log h ty_done a1 a2 r duration s3
                    in (Returned r, s4\<lparr>in_hook := False\<rparr>))
               | (NullCall, s3) \<Rightarrow> (NullCall, s3)
               | (NoReturn, s3) \<Rightarrow> (NoReturn, s3)))"

subsection \<open>The wrappers\<close>

definition pthread_mutex_init :: "'w host \<Rightarrow> u64 \<Rightarrow> u64 \<Rightarrow> 'w shim \<Rightarrow> outcome \<times> 'w shim" where
  "pthread_mutex_init h mutex attr =
     hook_single h real_pthread_mutex_init MutexInit [mutex, attr] mutex 0"

definition pthread_mutex_destroy :: "'w host \<Rightarrow> u64 \<Rightarrow> 'w shim \<Rightarrow> outcome \<times> 'w shim" where
  "pthread_mutex_destroy h mutex =
     hook_single h real_pthread_mutex_destroy MutexDestroy [mutex] mutex 0"

definition pthread_mutex_lock :: "'w host \<Rightarrow> u64 \<Rightarrow> 'w shim \<Rightarrow> outcome \<times> 'w shim" where
  "pthread_mutex_lock h mutex =
     hook_timed h real_pthread_mutex_lock MutexLock MutexLockDone [mutex] mutex 0"

definition pthread_mutex_trylock :: "'w host \<Rightarrow> u64 \<Rightarrow> 'w shim \<Rightarrow> outcome \<times> 'w shim" where
  "pthread_mutex_trylock h mutex =
     hook_timed h real_pthread_mutex_trylock MutexTryLock MutexTryLockDone [mutex] mutex 0"

definition pthread_mutex_timedlock :: "'w host \<Rightarrow> u64 \<Rightarrow> u64 \<Rightarrow> 'w shim \<Rightarrow> outcome \<times> 'w shim" where
  "pthread_mutex_timedlock h mutex abstime =
     hook_timed h real_pthread_mutex_timedlock MutexTimedLock MutexTimedLockDone
       [mutex, abstime] mutex 0"

definition pthread_mutex_unlock :: "'w host \<Rightarrow> u64 \<Rightarrow> 'w shim \<Rightarrow> outcome \<times> 'w shim" where
  "pthread_mutex_unlock h mutex =
     hook_single h real_pthread_mutex_unlock MutexUnlock [mutex] mutex 0"

definition pthread_cond_init :: "'w host \<Rightarrow> u64 \<Rightarrow> u64 \<Rightarrow> 'w shim \<Rightarrow> outcome \<times> 'w shim" where
  "pthread_cond_init h cond attr =
     hook_single h real_pthread_cond_init CondInit [cond, attr] cond 0"

definition pthread_cond_destroy :: "'w host \<Rightarrow> u64 \<Rightarrow> 'w shim \<Rightarrow> outcome \<times> 'w shim" where
  "pthread_cond_destroy h cond =
     hook_single h real_pthread_cond_destroy CondDestroy [cond] cond 0"

definition pthread_cond_signal :: "'w host \<Rightarrow> u64 \<Rightarrow> 'w shim \<Rightarrow> outcome \<times> 'w shim" where
  "pthread_cond_signal h cond =
     hook_single h real_pthread_cond_signal CondSignal [cond] cond 0"

definition pthread_cond_broadcast :: "'w host \<Rightarrow> u64 \<Rightarrow> 'w shim \<Rightarrow> outcome \<times> 'w shim" where
  "pthread_cond_broadcast h cond =
     hook_single h real_pthread_cond_broadcast CondBroadcast [cond] cond 0"

definition pthread_cond_wait :: "'w host \<Rightarrow> u64 \<Rightarrow> u64 \<Rightarrow> 'w shim \<Rightarrow> outcome \<times> 'w shim" where
  "pthread_cond_wait h cond mutex =
     hook_timed h real_pthread_cond_wait CondWait CondWaitDone [cond, mutex] cond mutex"

definition pthread_cond_timedwait ::
  "'w host \<Rightarrow> u64 \<Rightarrow> u64 \<Rightarrow> u64 \<Rightarrow> 'w shim \<Rightarrow> outcome \<times> 'w shim" where
  "pthread_cond_timedwait h cond mutex abstime =
     hook_timed h real_pthread_cond_timedwait CondTimedWait CondTimedWaitDone
       [cond, mutex, abstime] cond mutex"

definition pthread_rwlock_init :: "'w host \<Rightarrow> u64 \<Rightarrow> u64 \<Rightarrow> 'w shim \<Rightarrow> outcome \<times> 'w shim" where
  "pthread_rwlock_init h rwlock attr =
     hook_single h real_pthread_rwlock_init RWLockInit [rwlock, attr] rwlock 0"

definition pthread_rwlock_destroy :: "'w host \<Rightarrow> u64 \<Rightarrow> 'w shim \<Rightarrow> outcome \<times> 'w shim" where
  "pthread_rwlock_destroy h rwlock =
     hook_single h real_pthread_rwlock_destroy RWLockDestroy [rwlock] rwlock 0"

definition pthread_rwlock_rdlock :: "'w host \<Rightarrow> u64 \<Rightarrow> 'w shim \<Rightarrow> outcome \<times> 'w shim" where
  "pthread_rwlock_rdlock h rwlock =
     hook_timed h real_pthread_rwlock_rdlock RWLockRead RWLockReadDone [rwlock] rwlock 0"

definition pthread_rwlock_tryrdlock :: "'w host \<Rightarrow> u64 \<Rightarrow> 'w shim \<Rightarrow> outcome \<times> 'w shim" where
  "pthread_rwlock_tryrdlock h rwlock =
     hook_timed h real_pthread_rwlock_tryrdlock RWLockTryRead RWLockTryReadDone [rwlock] rwlock 0"

definition pthread_rwlock_timedrdlock ::
  "'w host \<Rightarrow> u64 \<Rightarrow> u64 \<Rightarrow> 'w shim \<Rightarrow> outcome \<times> 'w shim" where
  "pthread_rwlock_timedrdlock h rwlock abstime =
     hook_timed h real_pthread_rwlock_timedrdlock RWLockTimedRead RWLockTimedReadDone
       [rwlock, abstime] rwlock 0"

definition pthread_rwlock_wrlock :: "'w host \<Rightarrow> u64 \<Rightarrow> 'w shim \<Rightarrow> outcome \<times> 'w shim" where
  "pthread_rwlock_wrlock h rwlock =
     hook_timed h real_pthread_rwlock_wrlock RWLockWrite RWLockWriteDone [rwlock] rwlock 0"

definition pthread_rwlock_trywrlock :: "'w host \<Rightarrow> u64 \<Rightarrow> 'w shim \<Rightarrow> outcome \<times> 'w shim" where
  "pthread_rwlock_trywrlock h rwlock =
     hook_timed h real_pthread_rwlock_trywrlock RWLockTryWrite RWLockTryWriteDone [rwlock] rwlock 0"

definition pthread_rwlock_timedwrlock ::
  "'w host \<Rightarrow> u64 \<Rightarrow> u64 \<Rightarrow> 'w shim \<Rightarrow> outcome \<times> 'w shim" where
  "pthread_rwlock_timedwrlock h rwlock abstime =
     hook_timed h real_pthread_rwlock_timedwrlock RWLockTimedWrite RWLockTimedWriteDone
       [rwlock, abstime] rwlock 0"

definition pthread_rwlock_unlock :: "'w host \<Rightarrow> u64 \<Rightarrow> 'w shim \<Rightarrow> outcome \<times> 'w shim" where
  "pthread_rwlock_unlock h rwlock =
     hook_single h real_pthread_rwlock_unlock RWLockUnlock [rwlock] rwlock 0"

definition pthread_create ::
  "'w host \<Rightarrow> u64 \<Rightarrow> u64 \<Rightarrow> u64 \<Rightarrow> u64 \<Rightarrow> 'w shim \<Rightarrow> outcome \<times> 'w shim" where
  "pthread_create h thread attr start_routine arg =
     hook_single h real_pthread_create ThreadCreate [thread, attr, start_routine, arg] thread 0"

subsection \<open>A call of any wrapped entry point\<close>

text \<open>
  One constructor per entry point, carrying the caller's arguments, so that a statement
  can range over every wrapper and every argument.
\<close>

datatype call =
    Call_mutex_init u64 u64
  | Call_mutex_destroy u64
  | Call_mutex_lock u64
  | Call_mutex_trylock u64
  | Call_mutex_timedlock u64 u64
  | Call_mutex_unlock u64
  | Call_cond_init u64 u64
  | Call_cond_destroy u64
  | Call_cond_signal u64
  | Call_cond_broadcast u64
  | Call_cond_wait u64 u64
  | Call_cond_timedwait u64 u64 u64
  | Call_rwlock_init u64 u64
  | Call_rwlock_destroy u64
  | Call_rwlock_rdlock u64
  | Call_rwlock_tryrdlock u64
  | Call_rwlock_timedrdlock u64 u64
  | Call_rwlock_wrlock u64
  | Call_rwlock_trywrlock u64
  | Call_rwlock_timedwrlock u64 u64
  | Call_rwlock_unlock u64
  | Call_create u64 u64 u64 u64

fun invoke :: "'w host \<Rightarrow> call \<Rightarrow> 'w shim \<Rightarrow> outcome \<times> 'w shim" where
  "invoke h (Call_mutex_init m a) = pthread_mutex_init h m a"
| "invoke h (Call_mutex_destroy m) = pthread_mutex_destroy h m"
| "invoke h (Call_mutex_lock m) = pthread_mutex_lock h m"
| "invoke h (Call_mutex_trylock m) = pthread_mutex_trylock h m"
| "invoke h (Call_mutex_timedlock m t) = pthread_mutex_timedlock h m t"
| "invoke h (Call_mutex_unlock m) = pthread_mutex_unlock h m"
| "invoke h (Call_cond_init c a) = pthread_cond_init h c a"
| "invoke h (Call_cond_destroy c) = pthread_cond_destroy h c"
| "invoke h (Call_cond_signal c) = pthread_cond_signal h c"
| "invoke h (Call_cond_broadcast c) = pthread_cond_broadcast h c"
| "invoke h (Call_cond_wait c m) = pthread_cond_wait h c m"
| "invoke h (Call_cond_timedwait c m t) = pthread_cond_timedwait h c m t"
| "invoke h (Call_rwlock_init l a) = pthread_rwlock_init h l a"
| "invoke h (Call_rwlock_destroy l) = pthread_rwlock_destroy h l"
| "invoke h (Call_rwlock_rdlock l) = pthread_rwlock_rdlock h l"
| "invoke h (Call_rwlock_tryrdlock l) = pthread_rwlock_tryrdlock h l"
| "invoke h (Call_rwlock_timedrdlock l t) = pthread_rwlock_timedrdlock h l t"
| "invoke h (Call_rwlock_wrlock l) = pthread_rwlock_wrlock h l"
| "invoke h (Call_rwlock_trywrlock l) = pthread_rwlock_trywrlock h l"
| "invoke h (Call_rwlock_timedwrlock l t) = pthread_rwlock_timedwrlock h l t"
| "invoke h (Call_rwlock_unlock l) = pthread_rwlock_unlock h l"
| "invoke h (Call_create th a f x) = pthread_create h th a f x"

text \<open>The pointer a call goes through, its argument vector, and its first argument.\<close>

fun real_of :: "call \<Rightarrow> real_ptr" where
  "real_of (Call_mutex_init m a) = real_pthread_mutex_init"
| "real_of (Call_mutex_destroy m) = real_pthread_mutex_destroy"
| "real_of (Call_mutex_lock m) = real_pthread_mutex_lock"
| "real_of (Call_mutex_trylock m) = real_pthread_mutex_trylock"
| "real_of (Call_mutex_timedlock m t) = real_pthread_mutex_timedlock"
| "real_of (Call_mutex_unlock m) = real_pthread_mutex_unlock"
| "real_of (Call_cond_init c a) = real_pthread_cond_init"
| "real_of (Call_cond_destroy c) = real_pthread_cond_destroy"
| "real_of (Call_cond_signal c) = real_pthread_cond_signal"
| "real_of (Call_cond_broadcast c) = real_pthread_cond_broadcast"
| "real_of (Call_cond_wait c m) = real_pthread_cond_wait"
| "real_of (Call_cond_timedwait c m t) = real_pthread_cond_timedwait"
| "real_of (Call_rwlock_init l a) = real_pthread_rwlock_init"
| "real_of (Call_rwlock_destroy l) = real_pthread_rwlock_destroy"
| "real_of (Call_rwlock_rdlock l) = real_pthread_rwlock_rdlock"
| "real_of (Call_rwlock_tryrdlock l) = real_pthread_rwlock_tryrdlock"
| "real_of (Call_rwlock_timedrdlock l t) = real_pthread_rwlock_timedrdlock"
| "real_of (Call_rwlock_wrlock l) = real_pthread_rwlock_wrlock"
| "real_of (Call_rwlock_trywrlock l) = real_pthread_rwlock_trywrlock"
| "real_of (Call_rwlock_timedwrlock l t) = real_pthread_rwlock_timedwrlock"
| "real_of (Call_rwlock_unlock l) = real_pthread_rwlock_unlock"
| "real_of (Call_create th a f x) = real_pthread_create"

fun args_of :: "call \<Rightarrow> u64 list" where
  "args_of (Call_mutex_init m a) = [m, a]"
| "args_of (Call_mutex_destroy m) = [m]"
| "args_of (Call_mutex_lock m) = [m]"
| "args_of (Call_mutex_trylock m) = [m]"
| "args_of (Call_mutex_timedlock m t) = [m, t]"
| "args_of (Call_mutex_unlock m) = [m]"
| "args_of (Call_cond_init c a) = [c, a]"
| "args_of (Call_cond_destroy c) = [c]"
| "args_of (Call_cond_signal c) = [c]"
| "args_of (Call_cond_broadcast c) = [c]"
| "args_of (Call_cond_wait c m) = [c, m]"
| "args_of (Call_cond_timedwait c m t) = [c, m, t]"
| "args_of (Call_rwlock_init l a) = [l, a]"
| "args_of (Call_rwlock_destroy l) = [l]"
| "args_of (Call_rwlock_rdlock l) = [l]"
| "args_of (Call_rwlock_tryrdlock l) = [l]"
| "args_of (Call_rwlock_timedrdlock l t) = [l, t]"
| "args_of (Call_rwlock_wrlock l) = [l]"
| "args_of (Call_rwlock_trywrlock l) = [l]"
| "args_of (Call_rwlock_timedwrlock l t) = [l, t]"
| "args_of (Call_rwlock_unlock l) = [l]"
| "args_of (Call_create th a f x) = [th, a, f, x]"

definition primary :: "call \<Rightarrow> u64" where
  "primary c = hd (args_of c)"

subsection \<open>What one call of the logger does\<close>

text \<open>The record \<^verbatim>\<open>EventLogger::log\<close> assembles from its arguments and the host.\<close>

definition logged_event ::
  "'w host \<Rightarrow> EventType \<Rightarrow> u64 \<Rightarrow> u64 \<Rightarrow> i32 \<Rightarrow> u64 \<Rightarrow> 'w \<Rightarrow> Event" where
  "logged_event h ty p1 p2 res dur w =
     \<lparr>timestamp = steady_clock_now h w, tid = gettid h w, type = ty, ptr1 = p1, ptr2 = p2,
      result = res, duration_ns = dur, stack = backtrace h w MAX_STACK_DEPTH\<rparr>"

lemma logged_event_simps [simp]:
  "ptr1 (logged_event h ty p1 p2 res dur w) = p1"
  "ptr2 (logged_event h ty p1 p2 res dur w) = p2"
  "type (logged_event h ty p1 p2 res dur w) = ty"
  "result (logged_event h ty p1 p2 res dur w) = res"
  "duration_ns (logged_event h ty p1 p2 res dur w) = dur"
  "timestamp (logged_event h ty p1 p2 res dur w) = steady_clock_now h w"
  "length (stack (logged_event h ty p1 p2 res dur w)) \<le> MAX_STACK_DEPTH"
  by (simp_all add: logged_event_def backtrace_def)

lemma EventLogger_log_frame [simp]:
  "in_hook (EventLogger_log h ty p1 p2 res dur s) = in_hook s"
  "reals (EventLogger_log h ty p1 p2 res dur s) = reals s"
  "world (EventLogger_log h ty p1 p2 res dur s) = world s"
  "initialized (EventLogger_log h ty p1 p2 res dur s) = initialized s"
  by (simp_all add: EventLogger_log_def Let_def)

lemma EventLogger_log_file:
  "log_file (EventLogger_log h ty p1 p2 res dur s) =
     (if initialized s
      then map_option (\<lambda>f. f @ serialize (logged_event h ty p1 p2 res dur (world s))) (log_file s)
      else log_file s)"
proof -
  have "serialize_into (logged_event h ty p1 p2 res dur (world s)) (writer s)
          = serialize (logged_event h ty p1 p2 res dur (world s))"
    by (rule serialize_into_writer) simp
  then show ?thesis
    by (simp add: EventLogger_log_def Let_def logged_event_def)
qed


subsection \<open>How a call through a pointer ends\<close>

lemma call_real_cases:
  obtains (null) "reals s p = None" and "call_real p args s = (NullCall, s)"
  | (noreturn) f where "reals s p = Some f" and "f args (world s) = None"
      and "call_real p args s = (NoReturn, s)"
  | (return) f r w' where "reals s p = Some f" and "f args (world s) = Some (r, w')"
      and "call_real p args s = (Returned r, s\<lparr>world := w'\<rparr>)"
proof (cases "reals s p")
  case None
  then show ?thesis using null by (simp add: call_real_def)
next
  case (Some f)
  show ?thesis
  proof (cases "f args (world s)")
    case None
    with Some show ?thesis using noreturn by (simp add: call_real_def)
  next
    case (Some rw)
    obtain r w' where "rw = (r, w')" by (cases rw)
    with Some \<open>reals s p = Some f\<close> show ?thesis using return by (simp add: call_real_def)
  qed
qed

lemma call_real_frame:
  "log_file (snd (call_real p args s)) = log_file s"
  "in_hook (snd (call_real p args s)) = in_hook s"
  "initialized (snd (call_real p args s)) = initialized s"
  "reals (snd (call_real p args s)) = reals s"
  by (cases rule: call_real_cases[of s p args]; simp)+



subsection \<open>The two wrapper bodies\<close>









text \<open>
  The bytes a wrapper body adds to the trace are the serializations of at most two
  records, each with the wrapper's first pointer argument as \<open>ptr1\<close>.
\<close>

lemma hook_single_events:
  "\<exists>evs. log_file (snd (hook_single h p ty args a1 a2 s))
            = map_option (\<lambda>f. f @ concat (map serialize evs)) (log_file s)
         \<and> (\<forall>e \<in> set evs. ptr1 e = a1 \<and> length (stack e) \<le> MAX_STACK_DEPTH)"
proof (cases "in_hook s")
  case True
  then have "log_file (snd (hook_single h p ty args a1 a2 s))
               = map_option (\<lambda>f. f @ concat (map serialize [])) (log_file s)"
    by (simp add: hook_single_def call_real_frame option.map_ident)
  then show ?thesis by (intro exI[of _ "[]"]) simp
next
  case False
  show ?thesis
  proof (cases rule: call_real_cases[of "s\<lparr>in_hook := True\<rparr>" p args])
    case null
    with False have "log_file (snd (hook_single h p ty args a1 a2 s))
               = map_option (\<lambda>f. f @ concat (map serialize [])) (log_file s)"
      by (simp add: hook_single_def option.map_ident)
    then show ?thesis by (intro exI[of _ "[]"]) simp
  next
    case (noreturn f)
    with False have "log_file (snd (hook_single h p ty args a1 a2 s))
               = map_option (\<lambda>f. f @ concat (map serialize [])) (log_file s)"
      by (simp add: hook_single_def option.map_ident)
    then show ?thesis by (intro exI[of _ "[]"]) simp
  next
    case (return f r w')
    let ?e = "logged_event h ty a1 a2 r 0 w'"
    from return False have "log_file (snd (hook_single h p ty args a1 a2 s))
               = map_option (\<lambda>f. f @ concat (map serialize (if initialized s then [?e] else [])))
                   (log_file s)"
      by (simp add: hook_single_def EventLogger_log_file option.map_ident)
    then show ?thesis
      by (intro exI[of _ "if initialized s then [?e] else []"]) simp
  qed
qed

lemma hook_timed_events:
  "\<exists>evs. log_file (snd (hook_timed h p ty_pre ty_done args a1 a2 s))
            = map_option (\<lambda>f. f @ concat (map serialize evs)) (log_file s)
         \<and> (\<forall>e \<in> set evs. ptr1 e = a1 \<and> length (stack e) \<le> MAX_STACK_DEPTH)"
proof (cases "in_hook s")
  case True
  then have "log_file (snd (hook_timed h p ty_pre ty_done args a1 a2 s))
               = map_option (\<lambda>f. f @ concat (map serialize [])) (log_file s)"
    by (simp add: hook_timed_def call_real_frame option.map_ident)
  then show ?thesis by (intro exI[of _ "[]"]) simp
next
  case False
  let ?s2 = "EventLogger_log h ty_pre a1 a2 0 0 (s\<lparr>in_hook := True\<rparr>)"
  let ?pre = "logged_event h ty_pre a1 a2 0 0 (world s)"
  have s2: "log_file ?s2
              = map_option (\<lambda>f. f @ concat (map serialize (if initialized s then [?pre] else [])))
                  (log_file s)"
    by (simp add: EventLogger_log_file option.map_ident)
  show ?thesis
  proof (cases rule: call_real_cases[of ?s2 p args])
    case null
    with False have "log_file (snd (hook_timed h p ty_pre ty_done args a1 a2 s)) = log_file ?s2"
      by (simp add: hook_timed_def Let_def)
    with s2 show ?thesis
      by (intro exI[of _ "if initialized s then [?pre] else []"]) simp
  next
    case (noreturn f)
    with False have "log_file (snd (hook_timed h p ty_pre ty_done args a1 a2 s)) = log_file ?s2"
      by (simp add: hook_timed_def Let_def)
    with s2 show ?thesis
      by (intro exI[of _ "if initialized s then [?pre] else []"]) simp
  next
    case (return f r w')
    let ?done = "logged_event h ty_done a1 a2 r
                   (steady_clock_now h w' - steady_clock_now h (world s)) w'"
    from return False have "log_file (snd (hook_timed h p ty_pre ty_done args a1 a2 s))
               = (if initialized s
                  then map_option (\<lambda>f. f @ serialize ?done) (log_file ?s2)
                  else log_file ?s2)"
      by (simp add: hook_timed_def Let_def EventLogger_log_file)
    with s2 have "log_file (snd (hook_timed h p ty_pre ty_done args a1 a2 s))
               = map_option (\<lambda>f. f @ concat (map serialize (if initialized s then [?pre, ?done] else [])))
                   (log_file s)"
      by (cases "log_file s") simp_all
    then show ?thesis
      by (intro exI[of _ "if initialized s then [?pre, ?done] else []"]) auto
  qed
qed

subsection \<open>Every wrapper is one of the two bodies\<close>

lemma invoke_shape:
  "\<exists>ty_pre ty a2.
     (\<forall>s. invoke h c s = hook_single h (real_of c) ty (args_of c) (primary c) a2 s)
   \<or> (\<forall>s. invoke h c s = hook_timed h (real_of c) ty_pre ty (args_of c) (primary c) a2 s)"
proof (cases c)
  case (Call_mutex_init m a)
  then show ?thesis by (auto simp: pthread_mutex_init_def primary_def)
next
  case (Call_mutex_destroy m)
  then show ?thesis by (auto simp: pthread_mutex_destroy_def primary_def)
next
  case (Call_mutex_lock m)
  then show ?thesis by (auto simp: pthread_mutex_lock_def primary_def)
next
  case (Call_mutex_trylock m)
  then show ?thesis by (auto simp: pthread_mutex_trylock_def primary_def)
next
  case (Call_mutex_timedlock m t)
  then show ?thesis by (auto simp: pthread_mutex_timedlock_def primary_def)
next
  case (Call_mutex_unlock m)
  then show ?thesis by (auto simp: pthread_mutex_unlock_def primary_def)
next
  case (Call_cond_init cv a)
  then show ?thesis by (auto simp: pthread_cond_init_def primary_def)
next
  case (Call_cond_destroy cv)
  then show ?thesis by (auto simp: pthread_cond_destroy_def primary_def)
next
  case (Call_cond_signal cv)
  then show ?thesis by (auto simp: pthread_cond_signal_def primary_def)
next
  case (Call_cond_broadcast cv)
  then show ?thesis by (auto simp: pthread_cond_broadcast_def primary_def)
next
  case (Call_cond_wait cv m)
  then show ?thesis by (auto simp: pthread_cond_wait_def primary_def)
next
  case (Call_cond_timedwait cv m t)
  then show ?thesis by (auto simp: pthread_cond_timedwait_def primary_def)
next
  case (Call_rwlock_init l a)
  then show ?thesis by (auto simp: pthread_rwlock_init_def primary_def)
next
  case (Call_rwlock_destroy l)
  then show ?thesis by (auto simp: pthread_rwlock_destroy_def primary_def)
next
  case (Call_rwlock_rdlock l)
  then show ?thesis by (auto simp: pthread_rwlock_rdlock_def primary_def)
next
  case (Call_rwlock_tryrdlock l)
  then show ?thesis by (auto simp: pthread_rwlock_tryrdlock_def primary_def)
next
  case (Call_rwlock_timedrdlock l t)
  then show ?thesis by (auto simp: pthread_rwlock_timedrdlock_def primary_def)
next
  case (Call_rwlock_wrlock l)
  then show ?thesis by (auto simp: pthread_rwlock_wrlock_def primary_def)
next
  case (Call_rwlock_trywrlock l)
  then show ?thesis by (auto simp: pthread_rwlock_trywrlock_def primary_def)
next
  case (Call_rwlock_timedwrlock l t)
  then show ?thesis by (auto simp: pthread_rwlock_timedwrlock_def primary_def)
next
  case (Call_rwlock_unlock l)
  then show ?thesis by (auto simp: pthread_rwlock_unlock_def primary_def)
next
  case (Call_create th a f x)
  then show ?thesis by (auto simp: pthread_create_def primary_def)
qed

lemma invoke_cases:
  obtains (single) ty a2
      where "\<And>s. invoke h c s = hook_single h (real_of c) ty (args_of c) (primary c) a2 s"
    | (timed) ty_pre ty a2
      where "\<And>s. invoke h c s = hook_timed h (real_of c) ty_pre ty (args_of c) (primary c) a2 s"
  using invoke_shape[of h c] by blast





lemma invoke_events:
  "\<exists>evs. log_file (snd (invoke h c s))
            = map_option (\<lambda>f. f @ concat (map serialize evs)) (log_file s)
         \<and> (\<forall>e \<in> set evs. ptr1 e = primary c \<and> length (stack e) \<le> MAX_STACK_DEPTH)"
proof (cases rule: invoke_cases[of h c])
  case (single ty a2)
  show ?thesis unfolding single by (rule hook_single_events)
next
  case (timed ty_pre ty a2)
  show ?thesis unfolding timed by (rule hook_timed_events)
qed

subsection \<open>What is in the pointers after loading\<close>

text \<open>
  The name each pointer is looked up under, and the lookup \<^verbatim>\<open>init_skeleton_key\<close> uses for
  it: the six condition-variable symbols through \<^verbatim>\<open>dlvsym\<close> with version
  \<^verbatim>\<open>GLIBC_2.3.2\<close>, the others through \<^verbatim>\<open>dlsym\<close>.
\<close>

fun symbol_name :: "real_ptr \<Rightarrow> string" where
  "symbol_name real_pthread_mutex_init = ''pthread_mutex_init''"
| "symbol_name real_pthread_mutex_destroy = ''pthread_mutex_destroy''"
| "symbol_name real_pthread_mutex_lock = ''pthread_mutex_lock''"
| "symbol_name real_pthread_mutex_trylock = ''pthread_mutex_trylock''"
| "symbol_name real_pthread_mutex_timedlock = ''pthread_mutex_timedlock''"
| "symbol_name real_pthread_mutex_unlock = ''pthread_mutex_unlock''"
| "symbol_name real_pthread_cond_init = ''pthread_cond_init''"
| "symbol_name real_pthread_cond_destroy = ''pthread_cond_destroy''"
| "symbol_name real_pthread_cond_signal = ''pthread_cond_signal''"
| "symbol_name real_pthread_cond_broadcast = ''pthread_cond_broadcast''"
| "symbol_name real_pthread_cond_wait = ''pthread_cond_wait''"
| "symbol_name real_pthread_cond_timedwait = ''pthread_cond_timedwait''"
| "symbol_name real_pthread_create = ''pthread_create''"
| "symbol_name real_pthread_rwlock_init = ''pthread_rwlock_init''"
| "symbol_name real_pthread_rwlock_destroy = ''pthread_rwlock_destroy''"
| "symbol_name real_pthread_rwlock_rdlock = ''pthread_rwlock_rdlock''"
| "symbol_name real_pthread_rwlock_tryrdlock = ''pthread_rwlock_tryrdlock''"
| "symbol_name real_pthread_rwlock_timedrdlock = ''pthread_rwlock_timedrdlock''"
| "symbol_name real_pthread_rwlock_wrlock = ''pthread_rwlock_wrlock''"
| "symbol_name real_pthread_rwlock_trywrlock = ''pthread_rwlock_trywrlock''"
| "symbol_name real_pthread_rwlock_timedwrlock = ''pthread_rwlock_timedwrlock''"
| "symbol_name real_pthread_rwlock_unlock = ''pthread_rwlock_unlock''"

definition versioned :: "real_ptr \<Rightarrow> bool" where
  "versioned p \<longleftrightarrow>
     p = real_pthread_cond_init \<or> p = real_pthread_cond_destroy \<or> p = real_pthread_cond_signal
     \<or> p = real_pthread_cond_broadcast \<or> p = real_pthread_cond_wait
     \<or> p = real_pthread_cond_timedwait"

definition resolve :: "'w host \<Rightarrow> real_ptr \<Rightarrow> 'w real_fn option" where
  "resolve h p =
     (if versioned p then dlvsym_next h (symbol_name p) ''GLIBC_2.3.2''
      else dlsym_next h (symbol_name p))"

lemma EventLogger_init_frame [simp]:
  "reals (EventLogger_init h filename s) = reals s"
  "in_hook (EventLogger_init h filename s) = in_hook s"
  "world (EventLogger_init h filename s) = world s"
  by (simp_all add: EventLogger_init_def)

lemma init_skeleton_key_in_hook [simp]: "in_hook (init_skeleton_key h s) = in_hook s"
  by (simp add: init_skeleton_key_def Let_def split: option.splits)

lemma init_skeleton_key_world [simp]: "world (init_skeleton_key h s) = world s"
  by (simp add: init_skeleton_key_def Let_def split: option.splits)

lemma init_skeleton_key_reals: "reals (init_skeleton_key h s) p = resolve h p"
  by (cases p) (simp_all add: init_skeleton_key_def Let_def resolve_def versioned_def
                  split: option.splits)

subsection \<open>A small host to run the wrappers on\<close>

text \<open>
  A world with nothing in it: every real implementation returns 0 at once, the clock
  stands at 1000 ns, the thread id is 7, two frames are on the stack, the trace file opens,
  and every lookup succeeds except that of \<^verbatim>\<open>pthread_mutex_timedlock\<close>.
\<close>

definition demo_real :: "unit real_fn" where
  "demo_real args w = Some (0, w)"

definition demo_host :: "unit host" where
  "demo_host =
     \<lparr>dlsym_next = (\<lambda>name. if name = ''pthread_mutex_timedlock'' then None else Some demo_real),
      dlvsym_next = (\<lambda>name version. Some demo_real),
      getenv = (\<lambda>name. None),
      open_trunc = (\<lambda>filename. True),
      steady_clock_now = (\<lambda>w. 1000),
      gettid = (\<lambda>w. 7),
      call_stack = (\<lambda>w. [0x401000, 0x402000])\<rparr>"

definition demo_state :: "unit shim" where
  "demo_state = init_skeleton_key demo_host (loaded_state ())"

definition demo_event :: "EventType \<Rightarrow> u64 \<Rightarrow> Event" where
  "demo_event ty p = \<lparr>timestamp = 1000, tid = 7, type = ty, ptr1 = p, ptr2 = 0,
                       result = 0, duration_ns = 0, stack = [0x401000, 0x402000]\<rparr>"

lemma demo_state_simps [simp]:
  "in_hook demo_state = False"
  "initialized demo_state = True"
  "log_file demo_state = Some []"
  "world demo_state = ()"
  by (simp_all add: demo_state_def init_skeleton_key_def Let_def demo_host_def
        EventLogger_init_def loaded_state_def)

lemma demo_state_reals: "reals demo_state p = resolve demo_host p"
  by (simp add: demo_state_def init_skeleton_key_reals)


lemma demo_resolve_lock: "resolve demo_host real_pthread_mutex_lock = Some demo_real"
  by (simp add: resolve_def versioned_def demo_host_def)

lemma demo_logged_event:
  "logged_event demo_host ty p 0 0 0 () = demo_event ty p"
  by (simp add: logged_event_def demo_event_def demo_host_def backtrace_def MAX_STACK_DEPTH_def)

lemma demo_clock [simp]: "steady_clock_now demo_host w = 1000"
  by (simp add: demo_host_def)


lemma demo_lock:
  "invoke demo_host (Call_mutex_lock m) demo_state
     = (Returned 0,
        demo_state\<lparr>writer := serialize (demo_event MutexLockDone m),
                     log_file := Some (serialize (demo_event MutexLock m)
                                       @ serialize (demo_event MutexLockDone m))\<rparr>)"
proof -
  let ?s2 = "EventLogger_log demo_host MutexLock m 0 0 0 (demo_state\<lparr>in_hook := True\<rparr>)"
  have w: "serialize_into (demo_event ty m) wr = serialize (demo_event ty m)" for ty wr
    by (rule serialize_into_writer) (simp add: demo_event_def MAX_STACK_DEPTH_def)
  have s2: "?s2 = demo_state\<lparr>in_hook := True,
                              writer := serialize (demo_event MutexLock m),
                              log_file := Some (serialize (demo_event MutexLock m))\<rparr>"
    using w demo_logged_event[of MutexLock m]
    by (simp add: EventLogger_log_def Let_def logged_event_def)
  have c: "call_real real_pthread_mutex_lock [m] ?s2 = (Returned 0, ?s2)"
    by (simp add: call_real_def demo_state_reals demo_resolve_lock demo_real_def)
  have s4: "EventLogger_log demo_host MutexLockDone m 0 0 0 ?s2
              = demo_state\<lparr>in_hook := True,
                   writer := serialize (demo_event MutexLockDone m),
                   log_file := Some (serialize (demo_event MutexLock m)
                                     @ serialize (demo_event MutexLockDone m))\<rparr>"
    unfolding s2 using w demo_logged_event[of MutexLockDone m]
    by (simp add: EventLogger_log_def Let_def logged_event_def)
  show ?thesis
    by (simp add: pthread_mutex_lock_def hook_timed_def Let_def c s4)
qed






text \<open>
  C8 as stated fails. The wrappers pass the caller's pointer to the logger unchecked, and
  a blocking wrapper logs before it calls the real implementation. A call of
  \<^verbatim>\<open>pthread_mutex_lock(NULL)\<close> on the small host leaves two records in the trace, both
  with \<open>ptr1 = 0\<close>.
\<close>

theorem ptr1_zero_counterexample:
  "map_option reader_main (log_file (snd (invoke demo_host (Call_mutex_lock 0) demo_state)))
     = Some (Inr ([demo_event MutexLock 0, demo_event MutexLockDone 0], 0))
   \<and> ptr1 (demo_event MutexLock 0) = 0
   \<and> ptr1 (demo_event MutexLockDone 0) = 0"
proof -
  have "process_events
          \<lparr>reader_buffer = [] @ concat (map serialize [demo_event MutexLock 0, demo_event MutexLockDone 0]),
           reader_pos = length ([] :: u8 list)\<rparr> []
        = Inr ([] @ [demo_event MutexLock 0, demo_event MutexLockDone 0])"
    by (rule process_events_at) (simp add: demo_event_def MAX_STACK_DEPTH_def)
  then have "reader_main (serialize (demo_event MutexLock 0) @ serialize (demo_event MutexLockDone 0))
               = Inr ([demo_event MutexLock 0, demo_event MutexLockDone 0], 0)"
    by (simp add: reader_main_def)
  then show ?thesis
    using demo_lock[of 0] by (simp add: demo_event_def)
qed

text \<open>
  C8, amended. Every record a wrapper writes carries in \<open>ptr1\<close> the first pointer argument
  of the call, whatever the caller supplied: decoding the trace after the call gives the
  records that were there before, followed by records whose \<open>ptr1\<close> is that argument. So
  \<open>ptr1\<close> is non-zero exactly when the caller's pointer is.
\<close>

theorem ptr1_is_callers_pointer:
  "log_file s = Some (concat (map serialize old)) \<Longrightarrow>
   (\<forall>e \<in> set old. length (stack e) \<le> MAX_STACK_DEPTH) \<Longrightarrow>
   \<exists>evs. map_option reader_main (log_file (snd (invoke h c s))) = Some (Inr (old @ evs, 0))
         \<and> (\<forall>e \<in> set evs. ptr1 e = primary c)"
proof -
  assume f: "log_file s = Some (concat (map serialize old))"
    and wf: "\<forall>e \<in> set old. length (stack e) \<le> MAX_STACK_DEPTH"
  from invoke_events[of h c s] obtain evs where
    lf: "log_file (snd (invoke h c s))
           = map_option (\<lambda>f. f @ concat (map serialize evs)) (log_file s)"
    and evs: "\<forall>e \<in> set evs. ptr1 e = primary c \<and> length (stack e) \<le> MAX_STACK_DEPTH"
    by blast
  have all: "\<forall>e \<in> set (old @ evs). length (stack e) \<le> MAX_STACK_DEPTH"
    using wf evs by auto
  have "process_events
          \<lparr>reader_buffer = [] @ concat (map serialize (old @ evs)),
           reader_pos = length ([] :: u8 list)\<rparr> []
        = Inr ([] @ (old @ evs))"
    using all by (rule process_events_at)
  then have "reader_main (concat (map serialize old) @ concat (map serialize evs))
               = Inr (old @ evs, 0)"
    by (simp add: reader_main_def)
  with lf f evs show ?thesis by (intro exI[of _ evs]) simp
qed

theorem ptr1_is_callers_pointer_witness:
  "log_file (demo_state\<lparr>log_file := Some (concat (map serialize [sample_event]))\<rparr>)
     = Some (concat (map serialize [sample_event]))
   \<and> length (stack sample_event) \<le> MAX_STACK_DEPTH
   \<and> (\<exists>evs. map_option reader_main
               (log_file (snd (invoke demo_host (Call_cond_signal 0x2000)
                  (demo_state\<lparr>log_file := Some (concat (map serialize [sample_event]))\<rparr>))))
             = Some (Inr ([sample_event] @ evs, 0))
           \<and> (\<forall>e \<in> set evs. ptr1 e = 0x2000))"
proof -
  let ?s = "demo_state\<lparr>log_file := Some (concat (map serialize [sample_event]))\<rparr>"
  have f: "log_file ?s = Some (concat (map serialize [sample_event]))" by simp
  have le: "length (stack sample_event) \<le> MAX_STACK_DEPTH"
    by (simp add: sample_event_def MAX_STACK_DEPTH_def)
  then have wf: "\<forall>e \<in> set [sample_event]. length (stack e) \<le> MAX_STACK_DEPTH" by simp
  from ptr1_is_callers_pointer[OF f wf, of demo_host "Call_cond_signal 0x2000"] f le
  show ?thesis by (simp add: primary_def)
qed

section \<open>Concurrent calls of the logger\<close>

text \<open>
  Several threads inside \<^verbatim>\<open>EventLogger::log\<close>, as an interleaving of the steps the
  function takes. A thread is outside the function, or it holds \<^verbatim>\<open>write_mutex_\<close> and has
  captured its stack (lines 156 to 159), or it has also read the clock (lines 162 to 165).
  The record a thread carries holds the arguments of its call, its tid and its captured
  stack; the timestamp field is filled in when the clock is read.
\<close>

datatype phase = Outside | Holding Event | Stamped Event

record logger =
  clock :: u64
  write_mutex :: "nat option"
  trace_file :: "u8 list"
  scratch :: "u8 list"
  phase_of :: "nat \<Rightarrow> phase"

text \<open>At load time: the file was opened with truncation and no thread is in the logger.\<close>

definition logger_start :: "u64 \<Rightarrow> logger" where
  "logger_start c = \<lparr>clock = c, write_mutex = None, trace_file = [], scratch = [],
                      phase_of = (\<lambda>t. Outside)\<rparr>"

text \<open>
  The steps. \<open>tick\<close>: the steady clock moves, never backwards. \<open>acquire\<close>: a thread outside
  the function takes the free mutex (\<^verbatim>\<open>lock_guard\<close>) and captures at most 16 frames.
  \<open>stamp\<close>: the holder reads the clock. \<open>append\<close>: the holder serializes the record into
  the scratch buffer, writes and flushes it, and leaves the scope, which releases the
  mutex.
\<close>

inductive log_step :: "logger \<Rightarrow> logger \<Rightarrow> bool" where
  tick: "clock s \<le> c \<Longrightarrow> log_step s (s\<lparr>clock := c\<rparr>)"
| acquire:
    "phase_of s t = Outside \<Longrightarrow> write_mutex s = None \<Longrightarrow>
     length (stack e) \<le> MAX_STACK_DEPTH \<Longrightarrow>
     log_step s (s\<lparr>write_mutex := Some t, phase_of := (phase_of s)(t := Holding e)\<rparr>)"
| stamp:
    "phase_of s t = Holding e \<Longrightarrow>
     log_step s (s\<lparr>phase_of := (phase_of s)(t := Stamped (e\<lparr>timestamp := clock s\<rparr>))\<rparr>)"
| append:
    "phase_of s t = Stamped e \<Longrightarrow>
     log_step s (s\<lparr>trace_file := trace_file s @ serialize_into e (scratch s),
                    scratch := serialize_into e (scratch s),
                    write_mutex := None,
                    phase_of := (phase_of s)(t := Outside)\<rparr>)"

inductive reachable :: "logger \<Rightarrow> bool" where
  start: "reachable (logger_start c)"
| step: "reachable s \<Longrightarrow> log_step s s' \<Longrightarrow> reachable s'"

text \<open>
  The invariant: the file is the serialization of a list of records with non-decreasing
  timestamps, none later than the clock; only the holder of the mutex is inside the
  function; and a timestamp already read is not earlier than any record in the file.
\<close>

definition log_inv :: "logger \<Rightarrow> Event list \<Rightarrow> bool" where
  "log_inv s evs \<longleftrightarrow>
     trace_file s = concat (map serialize evs)
     \<and> (\<forall>e \<in> set evs. length (stack e) \<le> MAX_STACK_DEPTH \<and> timestamp e \<le> clock s)
     \<and> sorted (map timestamp evs)
     \<and> (\<forall>t. phase_of s t \<noteq> Outside \<longrightarrow> write_mutex s = Some t)
     \<and> (\<forall>t e. phase_of s t = Holding e \<longrightarrow> length (stack e) \<le> MAX_STACK_DEPTH)
     \<and> (\<forall>t e. phase_of s t = Stamped e \<longrightarrow>
           length (stack e) \<le> MAX_STACK_DEPTH \<and> timestamp e \<le> clock s
           \<and> (\<forall>e' \<in> set evs. timestamp e' \<le> timestamp e))"

lemma log_inv_start: "log_inv (logger_start c) []"
  by (simp add: log_inv_def logger_start_def)

lemma log_inv_tick:
  assumes "log_inv s evs" and "clock s \<le> c"
  shows "log_inv (s\<lparr>clock := c\<rparr>) evs"
proof -
  have up: "x \<le> clock s \<Longrightarrow> x \<le> c" for x
    using assms(2) by (rule order_trans[rotated])
  show ?thesis
    using assms(1) up unfolding log_inv_def by simp
qed

lemma log_inv_acquire:
  assumes "log_inv s evs" and "phase_of s t = Outside" and "write_mutex s = None"
    and "length (stack e) \<le> MAX_STACK_DEPTH"
  shows "log_inv (s\<lparr>write_mutex := Some t, phase_of := (phase_of s)(t := Holding e)\<rparr>) evs"
proof -
  have out: "phase_of s t' = Outside" for t'
    using assms(1,3) unfolding log_inv_def by (cases "phase_of s t'") auto
  show ?thesis
    using assms out unfolding log_inv_def by simp
qed

lemma log_inv_stamp:
  assumes "log_inv s evs" and "phase_of s t = Holding e"
  shows "log_inv (s\<lparr>phase_of := (phase_of s)(t := Stamped (e\<lparr>timestamp := clock s\<rparr>))\<rparr>) evs"
proof -
  have holder: "write_mutex s = Some t"
    using assms unfolding log_inv_def by (metis phase.distinct(1))
  have only: "phase_of s t' \<noteq> Outside \<Longrightarrow> t' = t" for t'
    using assms(1) holder unfolding log_inv_def by (metis option.inject)
  have depth: "length (stack e) \<le> MAX_STACK_DEPTH"
    using assms unfolding log_inv_def by blast
  show ?thesis
    unfolding log_inv_def
  proof (intro conjI allI impI ballI)
    fix t' e' assume st: "phase_of (s\<lparr>phase_of := (phase_of s)(t := Stamped (e\<lparr>timestamp := clock s\<rparr>))\<rparr>) t' = Stamped e'"
    have "t' = t"
    proof (rule ccontr)
      assume "t' \<noteq> t"
      with st have "phase_of s t' = Stamped e'" by simp
      then have "phase_of s t' \<noteq> Outside" by simp
      from only[OF this] \<open>t' \<noteq> t\<close> show False by simp
    qed
    with st have e': "e' = e\<lparr>timestamp := clock s\<rparr>" by simp
    show "length (stack e') \<le> MAX_STACK_DEPTH" using depth e' by simp
    show "timestamp e' \<le> clock (s\<lparr>phase_of := (phase_of s)(t := Stamped (e\<lparr>timestamp := clock s\<rparr>))\<rparr>)"
      using e' by simp
    fix x assume "x \<in> set evs"
    then show "timestamp x \<le> timestamp e'"
      using assms(1) e' unfolding log_inv_def by simp
  next
    fix t' e' assume "phase_of (s\<lparr>phase_of := (phase_of s)(t := Stamped (e\<lparr>timestamp := clock s\<rparr>))\<rparr>) t' = Holding e'"
    then have "phase_of s t' = Holding e'" by (cases "t' = t") simp_all
    then show "length (stack e') \<le> MAX_STACK_DEPTH"
      using assms(1) unfolding log_inv_def by blast
  next
    fix t' assume "phase_of (s\<lparr>phase_of := (phase_of s)(t := Stamped (e\<lparr>timestamp := clock s\<rparr>))\<rparr>) t' \<noteq> Outside"
    then have "t' = t \<or> phase_of s t' \<noteq> Outside" by (cases "t' = t") simp_all
    then have "t' = t" using only by blast
    then show "write_mutex (s\<lparr>phase_of := (phase_of s)(t := Stamped (e\<lparr>timestamp := clock s\<rparr>))\<rparr>) = Some t'"
      using holder by simp
  qed (use assms(1) in \<open>simp_all add: log_inv_def\<close>)
qed

lemma log_inv_append:
  assumes "log_inv s evs" and "phase_of s t = Stamped e"
  shows "log_inv (s\<lparr>trace_file := trace_file s @ serialize_into e (scratch s),
                    scratch := serialize_into e (scratch s),
                    write_mutex := None,
                    phase_of := (phase_of s)(t := Outside)\<rparr>) (evs @ [e])"
proof -
  have holder: "write_mutex s = Some t"
    using assms unfolding log_inv_def by (metis phase.distinct(3))
  have only: "phase_of s t' \<noteq> Outside \<Longrightarrow> t' = t" for t'
    using assms(1) holder unfolding log_inv_def by (metis option.inject)
  have e: "length (stack e) \<le> MAX_STACK_DEPTH" "timestamp e \<le> clock s"
      "\<forall>e' \<in> set evs. timestamp e' \<le> timestamp e"
    using assms unfolding log_inv_def by blast+
  have bytes: "serialize_into e (scratch s) = serialize e"
    using e(1) by (rule serialize_into_writer)
  have out: "((phase_of s)(t := Outside)) t' = Outside" for t'
    using only[of t'] by (cases "t' = t") auto
  have srt: "sorted (map timestamp (evs @ [e]))"
    using assms(1) e(3) unfolding log_inv_def by (simp add: sorted_append)
  show ?thesis
    using assms(1) e srt out unfolding log_inv_def bytes by auto
qed

lemma reachable_inv: "reachable s \<Longrightarrow> \<exists>evs. log_inv s evs"
proof (induction rule: reachable.induct)
  case (start c)
  show ?case using log_inv_start by blast
next
  case (step s s')
  then obtain evs where inv: "log_inv s evs" by blast
  from step.hyps(2) show ?case
  proof (cases rule: log_step.cases)
    case (tick c)
    with log_inv_tick[OF inv] show ?thesis by blast
  next
    case (acquire t e)
    with log_inv_acquire[OF inv] show ?thesis by blast
  next
    case (stamp t e)
    with log_inv_stamp[OF inv] show ?thesis by blast
  next
    case (append t e)
    with log_inv_append[OF inv] show ?thesis by blast
  qed
qed

text \<open>
  The three steps of one thread, taken without interruption, write what the single-thread
  \<open>EventLogger_log\<close> writes: the two descriptions of the function agree.
\<close>

lemma steps_agree_with_EventLogger_log:
  assumes "initialized s" and "log_file s = Some (trace_file L)"
    and "phase_of L t = Outside" and "write_mutex L = None"
    and "clock L = steady_clock_now h (world s)"
  shows "\<exists>L1 L2 L3. log_step L L1 \<and> log_step L1 L2 \<and> log_step L2 L3
           \<and> log_file (EventLogger_log h ty p1 p2 res dur s) = Some (trace_file L3)
           \<and> write_mutex L3 = None \<and> phase_of L3 t = Outside"
proof -
  let ?e = "logged_event h ty p1 p2 res dur (world s)"
  have depth: "length (stack ?e) \<le> MAX_STACK_DEPTH" by simp
  have ts: "?e\<lparr>timestamp := clock L\<rparr> = ?e"
    by (simp add: logged_event_def assms(5))
  let ?L1 = "L\<lparr>write_mutex := Some t, phase_of := (phase_of L)(t := Holding ?e)\<rparr>"
  let ?L2 = "?L1\<lparr>phase_of := (phase_of ?L1)(t := Stamped (?e\<lparr>timestamp := clock ?L1\<rparr>))\<rparr>"
  let ?L3 = "?L2\<lparr>trace_file := trace_file ?L2 @ serialize_into ?e (scratch ?L2),
                  scratch := serialize_into ?e (scratch ?L2),
                  write_mutex := None,
                  phase_of := (phase_of ?L2)(t := Outside)\<rparr>"
  have s1: "log_step L ?L1"
    using assms(3,4) depth by (rule log_step.acquire)
  have s2: "log_step ?L1 ?L2"
    by (rule log_step.stamp) simp
  have "phase_of ?L2 t = Stamped ?e" using ts by simp
  then have s3: "log_step ?L2 ?L3"
    by (rule log_step.append)
  have bytes: "serialize_into ?e b = serialize ?e" for b
    using depth by (rule serialize_into_writer)
  have "log_file (EventLogger_log h ty p1 p2 res dur s) = Some (trace_file ?L3)"
    using assms(1,2) by (simp add: EventLogger_log_file bytes)
  with s1 s2 s3 show ?thesis by (intro exI[of _ ?L1] exI[of _ ?L2] exI[of _ ?L3]) simp
qed

text \<open>
  C10. Timestamps are non-decreasing in file order. In every state the threads can reach,
  whatever their interleaving, the trace file decodes to a list of records whose
  timestamps are sorted: each record's timestamp is at most that of the record after it,
  whichever threads wrote them. The clock is read only by the holder of the writer mutex,
  and the record is appended before the mutex is released.
\<close>

theorem file_order_timestamps_sorted:
  "reachable s \<Longrightarrow>
   \<exists>evs. reader_main (trace_file s) = Inr (evs, 0) \<and> sorted (map timestamp evs)"
proof -
  assume "reachable s"
  then obtain evs where inv: "log_inv s evs" using reachable_inv by blast
  then have f: "trace_file s = concat (map serialize evs)"
    and wf: "\<forall>e \<in> set evs. length (stack e) \<le> MAX_STACK_DEPTH"
    and srt: "sorted (map timestamp evs)"
    unfolding log_inv_def by blast+
  have "process_events
          \<lparr>reader_buffer = [] @ concat (map serialize evs), reader_pos = length ([] :: u8 list)\<rparr> []
        = Inr ([] @ evs)"
    using wf by (rule process_events_at)
  then have "reader_main (trace_file s) = Inr (evs, 0)"
    by (simp add: reader_main_def f)
  with srt show ?thesis by blast
qed

text \<open>
  A run of two threads: thread 1 takes the mutex, the clock moves to 5, thread 1 stamps
  and appends; the clock moves to 9, thread 2 does the same.
\<close>

definition two_thread_run :: logger where
  "two_thread_run =
     \<lparr>clock = 9, write_mutex = None,
      trace_file = serialize (example_event\<lparr>timestamp := 5\<rparr>)
                   @ serialize (sample_event\<lparr>timestamp := 9\<rparr>),
      scratch = serialize (sample_event\<lparr>timestamp := 9\<rparr>),
      phase_of = (\<lambda>t. Outside)\<rparr>"

lemma two_thread_run_reachable: "reachable two_thread_run"
proof -
  let ?e1 = "example_event" and ?e2 = "sample_event"
  have d1: "length (stack ?e1) \<le> MAX_STACK_DEPTH" and d2: "length (stack ?e2) \<le> MAX_STACK_DEPTH"
    by (simp_all add: example_event_def sample_event_def MAX_STACK_DEPTH_def)
  have w1: "serialize_into (?e1\<lparr>timestamp := 5\<rparr>) b = serialize (?e1\<lparr>timestamp := 5\<rparr>)" for b
    using d1 by (intro serialize_into_writer) simp
  have w2: "serialize_into (?e2\<lparr>timestamp := 9\<rparr>) b = serialize (?e2\<lparr>timestamp := 9\<rparr>)" for b
    using d2 by (intro serialize_into_writer) simp
  let ?s0 = "logger_start 0"
  let ?s1 = "?s0\<lparr>write_mutex := Some 1, phase_of := (phase_of ?s0)(1 := Holding ?e1)\<rparr>"
  let ?s2 = "?s1\<lparr>clock := 5\<rparr>"
  let ?s3 = "?s2\<lparr>phase_of := (phase_of ?s2)(1 := Stamped (?e1\<lparr>timestamp := clock ?s2\<rparr>))\<rparr>"
  let ?s4 = "?s3\<lparr>trace_file := trace_file ?s3 @ serialize_into (?e1\<lparr>timestamp := clock ?s2\<rparr>) (scratch ?s3),
                  scratch := serialize_into (?e1\<lparr>timestamp := clock ?s2\<rparr>) (scratch ?s3),
                  write_mutex := None,
                  phase_of := (phase_of ?s3)(1 := Outside)\<rparr>"
  let ?s5 = "?s4\<lparr>clock := 9\<rparr>"
  let ?s6 = "?s5\<lparr>write_mutex := Some 2, phase_of := (phase_of ?s5)(2 := Holding ?e2)\<rparr>"
  let ?s7 = "?s6\<lparr>phase_of := (phase_of ?s6)(2 := Stamped (?e2\<lparr>timestamp := clock ?s6\<rparr>))\<rparr>"
  let ?s8 = "?s7\<lparr>trace_file := trace_file ?s7 @ serialize_into (?e2\<lparr>timestamp := clock ?s6\<rparr>) (scratch ?s7),
                  scratch := serialize_into (?e2\<lparr>timestamp := clock ?s6\<rparr>) (scratch ?s7),
                  write_mutex := None,
                  phase_of := (phase_of ?s7)(2 := Outside)\<rparr>"
  have r0: "reachable ?s0" by (rule reachable.start)
  have "log_step ?s0 ?s1" by (rule log_step.acquire) (simp_all add: logger_start_def d1)
  with r0 have r1: "reachable ?s1" by (rule reachable.step)
  have "log_step ?s1 ?s2" by (rule log_step.tick) (simp add: logger_start_def)
  with r1 have r2: "reachable ?s2" by (rule reachable.step)
  have "log_step ?s2 ?s3" by (rule log_step.stamp) simp
  with r2 have r3: "reachable ?s3" by (rule reachable.step)
  have "log_step ?s3 ?s4" by (rule log_step.append) simp
  with r3 have r4: "reachable ?s4" by (rule reachable.step)
  have "log_step ?s4 ?s5" by (rule log_step.tick) simp
  with r4 have r5: "reachable ?s5" by (rule reachable.step)
  have "log_step ?s5 ?s6" by (rule log_step.acquire) (simp_all add: logger_start_def d2)
  with r5 have r6: "reachable ?s6" by (rule reachable.step)
  have "log_step ?s6 ?s7" by (rule log_step.stamp) simp
  with r6 have r7: "reachable ?s7" by (rule reachable.step)
  have "log_step ?s7 ?s8" by (rule log_step.append) simp
  with r7 have r8: "reachable ?s8" by (rule reachable.step)
  have "?s8 = two_thread_run"
    by (simp add: two_thread_run_def logger_start_def w1 w2 fun_eq_iff)
  with r8 show ?thesis by simp
qed

theorem file_order_timestamps_sorted_witness:
  "reachable two_thread_run
   \<and> (\<exists>evs. reader_main (trace_file two_thread_run) = Inr (evs, 0) \<and> sorted (map timestamp evs))"
  using two_thread_run_reachable file_order_timestamps_sorted[OF two_thread_run_reachable]
  by blast

end
